theory Spec2Isabelle
  imports Main
begin

section \<open>Errors raised by the program\<close>

text \<open>
  Every exception the Python code can raise is a value.  \<open>util.fatal\<close> prints a message and
  calls \<open>sys.exit()\<close>, which raises \<open>SystemExit\<close>.  A computation that may raise returns
  \<open>error + 'a\<close>, with \<open>Inl\<close> for the exception.
\<close>

datatype error =
    SystemExit
  | TypeError
  | ValueError
  | KeyError
  | IndexError
  | AttributeError
  | InvalidStepException

definition ebind :: "error + 'a \<Rightarrow> ('a \<Rightarrow> error + 'b) \<Rightarrow> error + 'b" where
  "ebind r f = (case r of Inl e \<Rightarrow> Inl e | Inr v \<Rightarrow> f v)"

section \<open>matrix.py\<close>

definition MATRIX_SIZE :: int where
  "MATRIX_SIZE = 3"

definition SPACE_SYMBOL :: char where
  "SPACE_SYMBOL = CHR ''#''"

definition SPACE_VALUE :: int where
  "SPACE_VALUE = - 1"

fun boundary_check :: "int list \<Rightarrow> bool" where
  "boundary_check [] = True"
| "boundary_check (candidate # candidates) =
     (if \<not> (0 \<le> candidate \<and> candidate < MATRIX_SIZE) then False
      else boundary_check candidates)"

datatype Direction = LEFT | UP | RIGHT | DOWN

fun direction_value :: "Direction \<Rightarrow> int \<times> int" where
  "direction_value LEFT = (0, - 1)"
| "direction_value UP = (- 1, 0)"
| "direction_value RIGHT = (0, 1)"
| "direction_value DOWN = (1, 0)"

text \<open>Iterating over the enum class yields its members in definition order.\<close>

definition Direction_members :: "Direction list" where
  "Direction_members = [LEFT, UP, RIGHT, DOWN]"

definition DIRECTIONS :: "Direction list" where
  "DIRECTIONS = [LEFT, UP, RIGHT, DOWN]"

text \<open>
  A \<open>Matrix\<close> object: the two-dimensional list \<open>_arrangement\<close>, the cached \<open>_space_position\<close>
  (\<open>None\<close> until a blank is placed), the \<open>parent\<close> reference and \<open>last_direction\<close>.  A matrix
  is never mutated once \<open>parent\<close> has been set, so the reference is modelled by the value.
\<close>

datatype Matrix =
  Matrix (arrangement: "int list list") (space_position: "(int \<times> int) option")
         (parent: "Matrix option") (last_direction: "Direction option")

text \<open>The object built by \<open>Matrix()\<close> with \<open>data = None\<close>.\<close>

definition Matrix_blank :: Matrix where
  "Matrix_blank =
     Matrix (replicate (nat MATRIX_SIZE) (replicate (nat MATRIX_SIZE) SPACE_VALUE)) None None None"

text \<open>\<open>__eq__\<close> compares the arrangements only.\<close>

definition Matrix_eq :: "Matrix \<Rightarrow> Matrix \<Rightarrow> bool" where
  "Matrix_eq self other = (arrangement self = arrangement other)"

fun parents :: "Matrix \<Rightarrow> Matrix list" where
  "parents (Matrix a s None d) = []"
| "parents (Matrix a s (Some p) d) = p # parents p"

text \<open>\<open>x in xs\<close> on a list of matrices compares with \<open>__eq__\<close>.\<close>

definition Matrix_in :: "Matrix \<Rightarrow> Matrix list \<Rightarrow> bool" where
  "Matrix_in x xs = list_ex (Matrix_eq x) xs"

definition clone :: "Matrix \<Rightarrow> Matrix" where
  "clone self = Matrix (arrangement self) (space_position self) None None"

definition place :: "Matrix \<Rightarrow> int \<Rightarrow> int \<Rightarrow> int \<Rightarrow> error + Matrix" where
  "place self row column number =
     (if \<not> boundary_check [row, column] then Inl SystemExit
      else
        let sp = (if number = SPACE_VALUE then Some (row, column) else space_position self);
            arr = arrangement self
        in Inr (Matrix (arr[nat row := (arr ! nat row)[nat column := number]]) sp
                  (parent self) (last_direction self)))"

definition fetch :: "Matrix \<Rightarrow> int \<Rightarrow> int \<Rightarrow> error + int" where
  "fetch self row column =
     (if \<not> boundary_check [row, column] then Inl SystemExit
      else Inr (arrangement self ! nat row ! nat column))"

definition exchange :: "Matrix \<Rightarrow> int \<Rightarrow> int \<Rightarrow> int \<Rightarrow> int \<Rightarrow> error + Matrix" where
  "exchange self x1 y1 x2 y2 =
     (if \<not> boundary_check [x1, x2, y1, y2] then Inr self
      else
        ebind (fetch self x1 y1) (\<lambda>temp.
        ebind (fetch self x2 y2) (\<lambda>other.
        ebind (place self x1 y1 other) (\<lambda>self1.
        place self1 x2 y2 temp))))"

text \<open>
  The body shared by the loops of \<open>play\<close> and \<open>play_towards\<close> and by \<open>play_only\<close>, which the
  source repeats three times: the move towards one direction from the blank at
  \<open>(space_x, space_y)\<close>; \<open>None\<close> when the destination is out of the grid.  The loop of
  \<open>play_towards\<close> is that of \<open>play\<close> without the test of forbidden directions.
\<close>

definition move :: "Matrix \<Rightarrow> int \<Rightarrow> int \<Rightarrow> Direction \<Rightarrow> error + Matrix option" where
  "move self space_x space_y direction =
     (case direction_value direction of (delta_x, delta_y) \<Rightarrow>
        let x = space_x + delta_x; y = space_y + delta_y
        in if \<not> boundary_check [x, y] then Inr None
           else ebind (exchange (clone self) space_x space_y x y) (\<lambda>mat.
                  Inr (Some (Matrix (arrangement mat) (space_position mat)
                               (Some self) (Some direction)))))"

fun play_loop :: "Matrix \<Rightarrow> int \<Rightarrow> int \<Rightarrow> Direction list option \<Rightarrow> Direction list \<Rightarrow>
    Matrix list \<Rightarrow> error + Matrix list" where
  "play_loop self space_x space_y forbidden_directions [] new_matrices = Inr new_matrices"
| "play_loop self space_x space_y forbidden_directions (direction # rest) new_matrices =
     (if (case forbidden_directions of None \<Rightarrow> False | Some fs \<Rightarrow> direction \<in> set fs)
      then play_loop self space_x space_y forbidden_directions rest new_matrices
      else
        ebind (move self space_x space_y direction) (\<lambda>r.
          case r of
            None \<Rightarrow> play_loop self space_x space_y forbidden_directions rest new_matrices
          | Some mat \<Rightarrow>
              play_loop self space_x space_y forbidden_directions rest (new_matrices @ [mat])))"

definition play :: "Matrix \<Rightarrow> Direction list option \<Rightarrow> error + Matrix list" where
  "play self forbidden_directions =
     (case space_position self of
        None \<Rightarrow> Inl TypeError
      | Some (space_x, space_y) \<Rightarrow>
          play_loop self space_x space_y forbidden_directions Direction_members [])"

definition play_towards :: "Matrix \<Rightarrow> Direction list \<Rightarrow> error + Matrix list" where
  "play_towards self towards_directions =
     (case space_position self of
        None \<Rightarrow> Inl TypeError
      | Some (space_x, space_y) \<Rightarrow>
          play_loop self space_x space_y None towards_directions [])"

definition play_only :: "Matrix \<Rightarrow> Direction \<Rightarrow> error + Matrix option" where
  "play_only self direction =
     (case space_position self of
        None \<Rightarrow> Inl TypeError
      | Some (space_x, space_y) \<Rightarrow> move self space_x space_y direction)"

subsection \<open>The constructor\<close>

text \<open>
  \<open>str.strip()\<close> removes leading and trailing whitespace; lines are modelled as ASCII
  strings, whose whitespace characters are the codes 9 to 13, 28 to 31 and 32.
\<close>

definition is_space :: "char \<Rightarrow> bool" where
  "is_space ch = (let n = (of_char ch :: nat) in (9 \<le> n \<and> n \<le> 13) \<or> (28 \<le> n \<and> n \<le> 31) \<or> n = 32)"

definition strip :: "string \<Rightarrow> string" where
  "strip line = rev (dropWhile is_space (rev (dropWhile is_space line)))"

text \<open>\<open>int(char)\<close> on a one-character string: a decimal digit, else \<open>ValueError\<close>.\<close>

definition int_of_char :: "char \<Rightarrow> error + int" where
  "int_of_char ch =
     (let n = (of_char ch :: nat) in
      if 48 \<le> n \<and> n \<le> 57 then Inr (int n - 48) else Inl ValueError)"

text \<open>The dictionary \<open>{number: False for number in range(1, MATRIX_SIZE * MATRIX_SIZE)}\<close>.\<close>

definition appeared_init :: "int \<rightharpoonup> bool" where
  "appeared_init = (\<lambda>number. if 1 \<le> number \<and> number < MATRIX_SIZE * MATRIX_SIZE then Some False else None)"

text \<open>The inner loop over \<open>enumerate(line)\<close>; the state is \<open>(self, spaced, appeared)\<close>.\<close>

fun init_chars :: "int \<Rightarrow> int \<Rightarrow> string \<Rightarrow> Matrix \<times> bool \<times> (int \<rightharpoonup> bool) \<Rightarrow>
    error + (Matrix \<times> bool \<times> (int \<rightharpoonup> bool))" where
  "init_chars line_index char_index [] st = Inr st"
| "init_chars line_index char_index (ch # rest) (self, spaced, appeared) =
     (if ch = SPACE_SYMBOL then
        (if spaced then Inl SystemExit
         else ebind (place self line_index char_index SPACE_VALUE) (\<lambda>self'.
                init_chars line_index (char_index + 1) rest (self', True, appeared)))
      else
        ebind (int_of_char ch) (\<lambda>number.
          case appeared number of
            None \<Rightarrow> Inl KeyError
          | Some seen \<Rightarrow>
              if seen then Inl SystemExit
              else ebind (place self line_index char_index number) (\<lambda>self'.
                     init_chars line_index (char_index + 1) rest
                       (self', spaced, appeared(number \<mapsto> True)))))"

text \<open>The outer loop over \<open>enumerate(data)\<close>.\<close>

fun init_lines :: "int \<Rightarrow> string list \<Rightarrow> Matrix \<times> bool \<times> (int \<rightharpoonup> bool) \<Rightarrow>
    error + (Matrix \<times> bool \<times> (int \<rightharpoonup> bool))" where
  "init_lines line_index [] st = Inr st"
| "init_lines line_index (line # rest) st =
     (if \<not> boundary_check [line_index] then Inl SystemExit
      else
        let line' = strip line
        in if int (length line') \<noteq> MATRIX_SIZE then Inl SystemExit
           else ebind (init_chars line_index 0 line' st) (\<lambda>st'.
                  init_lines (line_index + 1) rest st'))"

definition Matrix_init :: "string list option \<Rightarrow> error + Matrix" where
  "Matrix_init data =
     (case data of
        None \<Rightarrow> Inr Matrix_blank
      | Some lines \<Rightarrow>
          ebind (init_lines 0 lines (Matrix_blank, False, appeared_init)) (\<lambda>(self, spaced, appeared).
            Inr self))"

section \<open>algorithm/__init__.py\<close>

text \<open>A \<open>for\<close> loop whose body may raise: the state is threaded, the first error ends it.\<close>

fun for_each :: "'a list \<Rightarrow> ('a \<Rightarrow> 's \<Rightarrow> error + 's) \<Rightarrow> 's \<Rightarrow> error + 's" where
  "for_each [] body s = Inr s"
| "for_each (x # xs) body s = ebind (body x s) (for_each xs body)"

definition py_range :: "int \<Rightarrow> int list" where
  "py_range n = map int [0..<nat n]"

text \<open>
  A Python \<open>set\<close> of integers is modelled by a duplicate-free list in insertion order;
  \<open>set_add\<close> is \<open>set.add\<close>.
\<close>

definition set_add :: "int \<Rightarrow> int list \<Rightarrow> int list" where
  "set_add x xs = (if x \<in> set xs then xs else xs @ [x])"

definition differentiate :: "Matrix \<Rightarrow> Matrix \<Rightarrow> error + int list" where
  "differentiate old new =
     for_each (py_range 3) (\<lambda>i difference.
       for_each (py_range 3) (\<lambda>j difference.
         ebind (fetch old i j) (\<lambda>old_number.
         ebind (fetch new i j) (\<lambda>new_number.
           if old_number \<noteq> new_number
           then Inr (set_add new_number (set_add old_number difference))
           else Inr difference))) difference) []"

text \<open>
  A \<open>SolutionStep\<close> object.  The attribute \<open>click\<close> is assigned inside the loop over the
  difference set, so it is \<open>None\<close> while unassigned.  The loop takes the first element
  other than the blank; when the two checks before it pass there is exactly one such
  element, so the order in which a Python set is iterated plays no role.  Since \<open>target\<close>
  is a field name here, the local variables the source calls \<open>target\<close> are written
  \<open>target_matrix\<close> below.
\<close>

record SolutionStep =
  click :: "int option"
  target :: Matrix

definition SolutionStep_init :: "Matrix \<Rightarrow> Matrix \<Rightarrow> error + SolutionStep" where
  "SolutionStep_init old new =
     ebind (differentiate old new) (\<lambda>difference.
       if length difference \<noteq> 2 then Inl InvalidStepException
       else if SPACE_VALUE \<notin> set difference then Inl InvalidStepException
       else Inr \<lparr>click = find (\<lambda>d. d \<noteq> SPACE_VALUE) difference, target = clone new\<rparr>)"

text \<open>
  The path reconstruction shared by both searches: walk the \<open>parent\<close> links from a matrix
  to the root, appending one step per link; the caller reverses the list.
\<close>

fun steps_to_root :: "Matrix \<Rightarrow> error + SolutionStep list" where
  "steps_to_root (Matrix a s None d) = Inr []"
| "steps_to_root (Matrix a s (Some p) d) =
     ebind (SolutionStep_init p (Matrix a s (Some p) d)) (\<lambda>step.
     ebind (steps_to_root p) (\<lambda>steps. Inr (step # steps)))"

section \<open>algorithm/search/bfs.py\<close>

text \<open>
  The \<open>while\<close> loop of \<open>BreadthFirstSearch.solve\<close> over the FIFO queue.  The outer
  \<open>option\<close> is \<open>None\<close> when the loop never ends; inside, \<open>Inr None\<close> is Python's \<open>None\<close>
  (the queue ran empty) and \<open>Inr (Some steps)\<close> the returned list.
\<close>

partial_function (option) bfs_loop ::
    "Matrix \<Rightarrow> Matrix list \<Rightarrow> (error + SolutionStep list option) option" where
  "bfs_loop final matrix_queue =
     (case matrix_queue of
        [] \<Rightarrow> Some (Inr None)
      | target_matrix # rest \<Rightarrow>
          if Matrix_eq target_matrix final
          then Some (ebind (steps_to_root target_matrix) (\<lambda>steps. Inr (Some (rev steps))))
          else (case play target_matrix None of
                  Inl e \<Rightarrow> Some (Inl e)
                | Inr new_targets \<Rightarrow>
                    bfs_loop final
                      (rest @ filter (\<lambda>new_target. \<not> Matrix_in new_target (parents target_matrix))
                                new_targets)))"

declare bfs_loop.simps [code]

definition BreadthFirstSearch_solve ::
    "Matrix \<Rightarrow> Matrix \<Rightarrow> (error + SolutionStep list option) option" where
  "BreadthFirstSearch_solve initial_matrix final_matrix =
     bfs_loop (clone final_matrix) [clone initial_matrix]"

section \<open>algorithm/search/dfs.py\<close>

function dfs :: "int \<Rightarrow> Matrix \<Rightarrow> int \<Rightarrow> Matrix \<Rightarrow> error + SolutionStep list option"
  and dfs_children :: "int \<Rightarrow> Matrix \<Rightarrow> int \<Rightarrow> Matrix list \<Rightarrow> error + SolutionStep list option"
where
  "dfs depth_limit final depth target_matrix =
     (if depth > depth_limit then Inr None
      else (case play target_matrix None of
              Inl e \<Rightarrow> Inl e
            | Inr candidates \<Rightarrow>
                dfs_children depth_limit final depth
                  (filter (\<lambda>candidate. \<not> Matrix_in candidate (parents target_matrix)) candidates)))"
| "dfs_children depth_limit final depth [] = Inr None"
| "dfs_children depth_limit final depth (child # children) =
     (if Matrix_eq child final
      then ebind (steps_to_root child) (\<lambda>steps. Inr (Some (rev steps)))
      else (case dfs depth_limit final (depth + 1) child of
              Inl e \<Rightarrow> Inl e
            | Inr (Some child_dfs) \<Rightarrow> Inr (Some child_dfs)
            | Inr None \<Rightarrow> dfs_children depth_limit final depth children))"
  by pat_completeness auto
termination
  by (relation "measures
        [\<lambda>x. case x of Inl (l, f, d, t) \<Rightarrow> nat (l + 1 - d) | Inr (l, f, d, cs) \<Rightarrow> nat (l - d),
         \<lambda>x. case x of Inl (l, f, d, t) \<Rightarrow> 0 | Inr (l, f, d, cs) \<Rightarrow> Suc (length cs)]")
     auto

declare dfs.simps [simp del]

definition DepthFirstSearch_solve ::
    "int \<Rightarrow> Matrix \<Rightarrow> Matrix \<Rightarrow> error + SolutionStep list option" where
  "DepthFirstSearch_solve depth_limit initial_matrix final_matrix =
     dfs depth_limit (clone final_matrix) 1 (clone initial_matrix)"

section \<open>algorithm/heuristic/genetic.py\<close>

definition POPULATION_SIZE :: int where
  "POPULATION_SIZE = 32768"

definition FINAL_ADAPTIVITY :: int where
  "FINAL_ADAPTIVITY = 123456"

definition positional_adaptivity :: "Matrix \<Rightarrow> Matrix \<Rightarrow> error + int" where
  "positional_adaptivity target_matrix ideal =
     for_each (py_range MATRIX_SIZE) (\<lambda>i val.
       for_each (py_range MATRIX_SIZE) (\<lambda>j val.
         ebind (fetch target_matrix i j) (\<lambda>element.
           for_each (py_range MATRIX_SIZE) (\<lambda>m val.
             for_each (py_range MATRIX_SIZE) (\<lambda>n val.
               ebind (fetch ideal m n) (\<lambda>number.
                 if number = element
                 then Inr (val - (\<bar>i - m\<bar> + \<bar>j - n\<bar>) ^ 2)
                 else Inr val)) val) val)) val) 0"

record Individual =
  gene :: "Direction list"
  adaptivity :: int

definition Individual_clone :: "Individual \<Rightarrow> Individual" where
  "Individual_clone self = \<lparr>gene = gene self, adaptivity = adaptivity self\<rparr>"

text \<open>
  The loop of \<open>calculate_adaptivity\<close> over \<open>enumerate(self.gene)\<close>, followed by the last
  statement of the method.  \<open>last_candidate\<close> is assigned from \<open>candidate\<close> at the top of
  each iteration, so on \<open>break\<close> it is the matrix the illegal move was tried on.
\<close>

fun adaptivity_loop :: "Matrix \<Rightarrow> Individual \<Rightarrow> int \<Rightarrow> Matrix \<Rightarrow> Matrix \<Rightarrow> Direction list \<Rightarrow>
    error + Individual" where
  "adaptivity_loop final self i candidate last_candidate [] =
     ebind (positional_adaptivity last_candidate final) (\<lambda>p.
       Inr (self\<lparr>adaptivity := adaptivity self + p\<rparr>))"
| "adaptivity_loop final self i candidate last_candidate (direction # rest) =
     ebind (play_only candidate direction) (\<lambda>r.
       case r of
         None \<Rightarrow>
           ebind (positional_adaptivity candidate final) (\<lambda>p.
             Inr (self\<lparr>adaptivity := adaptivity self + i + p\<rparr>))
       | Some candidate' \<Rightarrow>
           if Matrix_eq candidate' final
           then Inr (self\<lparr>gene := take (nat (i + 1)) (gene self), adaptivity := FINAL_ADAPTIVITY\<rparr>)
           else adaptivity_loop final self (i + 1) candidate' candidate rest)"

definition calculate_adaptivity :: "Individual \<Rightarrow> Matrix \<Rightarrow> Matrix \<Rightarrow> error + Individual" where
  "calculate_adaptivity self initial final =
     (let candidate = clone initial
      in adaptivity_loop final (self\<lparr>adaptivity := 0\<rparr>) 0 candidate candidate (gene self))"

subsection \<open>Evaluation\<close>




subsection \<open>The random module\<close>

text \<open>
  The generator is an input: \<open>rnd k\<close> is the raw number behind the \<open>k\<close>-th call of the
  module, and every call advances the position by one.  \<open>random.choice\<close> picks an index
  below the length (\<open>IndexError\<close> on an empty sequence), \<open>random.randrange(n)\<close> a number
  below \<open>n\<close> (\<open>ValueError\<close> when \<open>n \<le> 0\<close>), and \<open>random.random()\<close> a multiple of
  \<open>2\<^sup>-\<^sup>5\<^sup>3\<close> below 1, of which the numerator is returned.
\<close>

type_synonym rng = "nat \<Rightarrow> nat"

definition random_choice :: "rng \<Rightarrow> nat \<Rightarrow> 'a list \<Rightarrow> error + ('a \<times> nat)" where
  "random_choice rnd k xs =
     (if xs = [] then Inl IndexError else Inr (xs ! (rnd k mod length xs), k + 1))"

definition random_randrange :: "rng \<Rightarrow> nat \<Rightarrow> int \<Rightarrow> error + (int \<times> nat)" where
  "random_randrange rnd k n =
     (if n \<le> 0 then Inl ValueError else Inr (int (rnd k) mod n, k + 1))"

definition random_random :: "rng \<Rightarrow> nat \<Rightarrow> nat \<times> nat" where
  "random_random rnd k = (rnd k mod 2 ^ 53, k + 1)"

text \<open>\<open>x < MUTATE_POSSIBILITY\<close> for the float \<open>x\<close> of numerator \<open>n\<close>, the constant being 0.01.\<close>

definition below_MUTATE_POSSIBILITY :: "nat \<Rightarrow> bool" where
  "below_MUTATE_POSSIBILITY n = (100 * n < 2 ^ 53)"

subsection \<open>Selection\<close>

function select_loop :: "rng \<Rightarrow> nat \<Rightarrow> Individual list \<Rightarrow> Individual list \<Rightarrow>
    error + (Individual list \<times> nat)" where
  "select_loop rnd k population new_population =
     (if int (length new_population) < POPULATION_SIZE
      then (case random_choice rnd k population of
              Inl e \<Rightarrow> Inl e
            | Inr (a, k1) \<Rightarrow>
                (case random_choice rnd k1 population of
                   Inl e \<Rightarrow> Inl e
                 | Inr (b, k2) \<Rightarrow>
                     select_loop rnd k2 population
                       (new_population @
                          [if adaptivity a \<ge> adaptivity b then Individual_clone a
                           else Individual_clone b])))
      else Inr (new_population, k))"
  by pat_completeness auto
termination
  by (relation "measure (\<lambda>(rnd, k, population, new_population).
        nat (POPULATION_SIZE - int (length new_population)))") auto

declare select_loop.simps [simp del]

definition select :: "rng \<Rightarrow> nat \<Rightarrow> Individual list \<Rightarrow> error + (Individual list \<times> nat)" where
  "select rnd k population = select_loop rnd k population []"

subsection \<open>Mutation\<close>

text \<open>
  The loop \<open>while pos_b == pos_a: pos_b = random.randrange(self.depth_limit)\<close>; the outer
  \<open>option\<close> is \<open>None\<close> when it never ends.
\<close>

partial_function (option) resample :: "rng \<Rightarrow> nat \<Rightarrow> int \<Rightarrow> int \<Rightarrow> int \<Rightarrow>
    (error + (int \<times> nat)) option" where
  "resample rnd k depth_limit pos_a pos_b =
     (if pos_b = pos_a
      then (case random_randrange rnd k depth_limit of
              Inl e \<Rightarrow> Some (Inl e)
            | Inr (pos_b', k') \<Rightarrow> resample rnd k' depth_limit pos_a pos_b')
      else Some (Inr (pos_b, k)))"

declare resample.simps [code]

text \<open>
  The tuple assignment that swaps two genes; the right-hand side is evaluated first, and
  an index beyond the genome raises \<open>IndexError\<close>.
\<close>

definition swap_genes :: "Individual \<Rightarrow> int \<Rightarrow> int \<Rightarrow> error + Individual" where
  "swap_genes individual pos_a pos_b =
     (let g = gene individual in
      if 0 \<le> pos_a \<and> pos_a < int (length g) \<and> 0 \<le> pos_b \<and> pos_b < int (length g)
      then Inr (individual\<lparr>gene := (g[nat pos_a := g ! nat pos_b])[nat pos_b := g ! nat pos_a]\<rparr>)
      else Inl IndexError)"

definition mutate_individual :: "rng \<Rightarrow> nat \<Rightarrow> int \<Rightarrow> Individual \<Rightarrow>
    (error + (Individual \<times> nat)) option" where
  "mutate_individual rnd k depth_limit individual =
     (case random_random rnd k of (x, k0) \<Rightarrow>
        if below_MUTATE_POSSIBILITY x
        then (case random_randrange rnd k0 depth_limit of
                Inl e \<Rightarrow> Some (Inl e)
              | Inr (pos_a, k1) \<Rightarrow>
                  (case random_randrange rnd k1 depth_limit of
                     Inl e \<Rightarrow> Some (Inl e)
                   | Inr (pos_b, k2) \<Rightarrow>
                       (case resample rnd k2 depth_limit pos_a pos_b of
                          None \<Rightarrow> None
                        | Some (Inl e) \<Rightarrow> Some (Inl e)
                        | Some (Inr (pos_b', k3)) \<Rightarrow>
                            Some (ebind (swap_genes individual pos_a pos_b') (\<lambda>individual'.
                                    Inr (individual', k3))))))
        else Some (Inr (individual, k0)))"

fun mutate :: "rng \<Rightarrow> nat \<Rightarrow> int \<Rightarrow> Individual list \<Rightarrow>
    (error + (Individual list \<times> nat)) option" where
  "mutate rnd k depth_limit [] = Some (Inr ([], k))"
| "mutate rnd k depth_limit (individual # rest) =
     (case mutate_individual rnd k depth_limit individual of
        None \<Rightarrow> None
      | Some (Inl e) \<Rightarrow> Some (Inl e)
      | Some (Inr (individual', k')) \<Rightarrow>
          (case mutate rnd k' depth_limit rest of
             None \<Rightarrow> None
           | Some (Inl e) \<Rightarrow> Some (Inl e)
           | Some (Inr (rest', k'')) \<Rightarrow> Some (Inr (individual' # rest', k''))))"

section \<open>The blank-position invariant\<close>

text \<open>
  The cached blank position is consistent with the grid: the grid is 3 by 3, the cache holds
  an in-bounds position, and a cell holds \<open>SPACE_VALUE\<close> exactly when it is the cached one.
\<close>

definition consistent :: "Matrix \<Rightarrow> bool" where
  "consistent m =
     (length (arrangement m) = 3 \<and> list_all (\<lambda>row. length row = 3) (arrangement m) \<and>
      (case space_position m of
         None \<Rightarrow> False
       | Some (r, c) \<Rightarrow>
           boundary_check [r, c] \<and>
           list_all (\<lambda>i. list_all (\<lambda>j.
               (arrangement m ! i ! j = SPACE_VALUE) = (int i = r \<and> int j = c)) [0..<3]) [0..<3]))"


text \<open>
  Well-formed constructor input: three lines of three characters, in which each of the
  digits 1 to 8 and the blank symbol occurs exactly once.
\<close>

definition well_formed_input :: "string list \<Rightarrow> bool" where
  "well_formed_input data =
     (length data = 3 \<and> list_all (\<lambda>line. length line = 3) data \<and>
      distinct (concat data) \<and> set (concat data) = set ''12345678#'')"

section \<open>Auxiliary notions\<close>

text \<open>The shape of a grid, and the grid after two cells have exchanged their contents.\<close>

definition grid3 :: "int list list \<Rightarrow> bool" where
  "grid3 g = (length g = 3 \<and> (\<forall>i<3. length (g ! i) = 3))"

definition swap_cells :: "int list list \<Rightarrow> nat \<Rightarrow> nat \<Rightarrow> nat \<Rightarrow> nat \<Rightarrow> int list list" where
  "swap_cells g r1 c1 r2 c2 =
     (let g1 = g[r1 := (g ! r1)[c1 := g ! r2 ! c2]] in g1[r2 := (g1 ! r2)[c2 := g ! r1 ! c1]])"

text \<open>Whether the blank can move towards a direction, and the matrix it then yields.\<close>

definition legal :: "Matrix \<Rightarrow> Direction \<Rightarrow> bool" where
  "legal m d =
     (case space_position m of
        None \<Rightarrow> False
      | Some (x, y) \<Rightarrow> boundary_check [x + fst (direction_value d), y + snd (direction_value d)])"

definition moved :: "Matrix \<Rightarrow> Direction \<Rightarrow> Matrix" where
  "moved m d =
     (case space_position m of
        None \<Rightarrow> m
      | Some (x, y) \<Rightarrow>
          let x' = x + fst (direction_value d); y' = y + snd (direction_value d)
          in Matrix (swap_cells (arrangement m) (nat x) (nat y) (nat x') (nat y'))
               (Some (x', y')) (Some m) (Some d))"

text \<open>The value the constructor stores for a character of well-formed input.\<close>

definition cell_of :: "char \<Rightarrow> int" where
  "cell_of ch = (if ch = SPACE_SYMBOL then SPACE_VALUE else int (of_char ch) - 48)"

definition placed :: "Matrix \<Rightarrow> nat \<Rightarrow> nat \<Rightarrow> int \<Rightarrow> Matrix" where
  "placed self r c v =
     Matrix ((arrangement self)[r := (arrangement self ! r)[c := v]])
       (if v = SPACE_VALUE then Some (int r, int c) else space_position self)
       (parent self) (last_direction self)"

fun placed_chars :: "nat \<Rightarrow> nat \<Rightarrow> string \<Rightarrow> Matrix \<Rightarrow> Matrix" where
  "placed_chars r c [] self = self"
| "placed_chars r c (ch # rest) self = placed_chars r (Suc c) rest (placed self r c (cell_of ch))"

fun placed_lines :: "nat \<Rightarrow> string list \<Rightarrow> Matrix \<Rightarrow> Matrix" where
  "placed_lines r [] self = self"
| "placed_lines r (line # rest) self = placed_lines (Suc r) rest (placed_chars r 0 line self)"


text \<open>The nine cells in the order the nested loops over \<open>range(3)\<close> visit them.\<close>

definition cells9 :: "(nat \<times> nat) list" where
  "cells9 = [(0, 0), (0, 1), (0, 2), (1, 0), (1, 1), (1, 2), (2, 0), (2, 1), (2, 2)]"

definition diff_step :: "int list list \<Rightarrow> int list list \<Rightarrow> nat \<times> nat \<Rightarrow> int list \<Rightarrow> int list" where
  "diff_step old new = (\<lambda>(i, j) difference.
     if old ! i ! j \<noteq> new ! i ! j
     then set_add (new ! i ! j) (set_add (old ! i ! j) difference)
     else difference)"


text \<open>The value \<open>positional_adaptivity\<close> computes, as a function of the two grids.\<close>

definition pos_value :: "int list list \<Rightarrow> int list list \<Rightarrow> int" where
  "pos_value g h =
     fold (\<lambda>i. fold (\<lambda>j. fold (\<lambda>m. fold (\<lambda>n val.
         if h ! nat m ! nat n = g ! nat i ! nat j
         then val - (\<bar>i - m\<bar> + \<bar>j - n\<bar>) ^ 2 else val)
       [0, 1, 2]) [0, 1, 2]) [0, 1, 2]) [0, 1, 2] 0"

text \<open>
  Replaying a genome: the moves are played one after the other with \<open>play_only\<close>; the
  replay is \<open>None\<close> when a move is illegal.  A genome reaches \<open>final\<close> from a state when
  some non-empty prefix replays to a matrix equal to \<open>final\<close>.
\<close>

fun replay :: "Matrix \<Rightarrow> Direction list \<Rightarrow> Matrix option" where
  "replay m [] = Some m"
| "replay m (d # ds) =
     (case play_only m d of Inr (Some m') \<Rightarrow> replay m' ds | _ \<Rightarrow> None)"

definition hits :: "Matrix \<Rightarrow> Matrix \<Rightarrow> Direction list \<Rightarrow> nat \<Rightarrow> bool" where
  "hits start final genome k =
     (case replay start (take k genome) of Some m \<Rightarrow> Matrix_eq m final | None \<Rightarrow> False)"


text \<open>The individual one round of the tournament appends, from the draws \<open>k\<close> and \<open>k + 1\<close>.\<close>

definition tournament :: "rng \<Rightarrow> nat \<Rightarrow> Individual list \<Rightarrow> Individual" where
  "tournament rnd k population =
     (let a = population ! (rnd k mod length population);
          b = population ! (rnd (Suc k) mod length population)
      in if adaptivity a \<ge> adaptivity b then Individual_clone a else Individual_clone b)"

text \<open>
  The successors of a node that both searches keep (those not equal to an ancestor of the
  node), and the nodes the breadth-first search holds at each depth, in queue order.
\<close>

definition expand :: "Matrix \<Rightarrow> Matrix list" where
  "expand n =
     filter (\<lambda>c. \<not> Matrix_in c (parents n)) (map (moved n) (filter (legal n) DIRECTIONS))"

fun level :: "Matrix \<Rightarrow> nat \<Rightarrow> Matrix list" where
  "level root 0 = [root]"
| "level root (Suc k) = concat (map expand (level root k))"

text \<open>
  Whether the mutation of an individual fires when its coin is the \<open>k\<close>-th call, and
  generators that, from any position on, eventually draw a gene position other than a
  given one.
\<close>

definition fires :: "rng \<Rightarrow> nat \<Rightarrow> bool" where
  "fires rnd k = below_MUTATE_POSSIBILITY (fst (random_random rnd k))"

definition fair :: "rng \<Rightarrow> int \<Rightarrow> bool" where
  "fair rnd depth_limit = (\<forall>k pos. \<exists>n. int (rnd (k + n)) mod depth_limit \<noteq> pos)"

section \<open>Example states\<close>

text \<open>
  The states the constructor builds from the lines \<open>123 / 4#5 / 678\<close>, \<open>123 / 45# / 678\<close>,
  \<open>#23 / 415 / 678\<close> and \<open>1#3 / 425 / 678\<close>.
\<close>

definition example_lines :: "string list" where
  "example_lines = [''123'', ''4#5'', ''678'']"

definition example_initial :: Matrix where
  "example_initial = Matrix [[1, 2, 3], [4, - 1, 5], [6, 7, 8]] (Some (1, 1)) None None"

definition example_final :: Matrix where
  "example_final = Matrix [[1, 2, 3], [4, 5, - 1], [6, 7, 8]] (Some (1, 2)) None None"

definition example_diagonal :: Matrix where
  "example_diagonal = Matrix [[- 1, 2, 3], [4, 1, 5], [6, 7, 8]] (Some (0, 0)) None None"

definition example_top :: Matrix where
  "example_top = Matrix [[1, - 1, 3], [4, 2, 5], [6, 7, 8]] (Some (0, 1)) None None"


text \<open>
  A population of \<open>POPULATION_SIZE\<close> individuals, all of fitness 0, whose first individual
  differs from the others, and the generator whose \<open>k\<close>-th raw number is \<open>k\<close>.
\<close>

definition example_population :: "Individual list" where
  "example_population =
     \<lparr>gene = [LEFT], adaptivity = 0\<rparr> # replicate 32767 \<lparr>gene = [RIGHT], adaptivity = 0\<rparr>"

definition example_rnd :: rng where
  "example_rnd = (\<lambda>k. k)"

text \<open>The states built from \<open>#12 / 345 / 678\<close> and \<open>12# / 345 / 678\<close>.\<close>

definition example_corner :: Matrix where
  "example_corner = Matrix [[- 1, 1, 2], [3, 4, 5], [6, 7, 8]] (Some (0, 0)) None None"

definition example_corner_final :: Matrix where
  "example_corner_final = Matrix [[1, 2, - 1], [3, 4, 5], [6, 7, 8]] (Some (0, 2)) None None"



section \<open>Basic facts\<close>

subsection \<open>Grids and the invariant\<close>

lemma ebind_simps [simp]: "ebind (Inl e) f = Inl e" "ebind (Inr v) f = f v"
  by (simp_all add: ebind_def)

lemma boundary_check_iff: "boundary_check xs = (\<forall>x\<in>set xs. 0 \<le> x \<and> x < 3)"
  by (induction xs) (auto simp: MATRIX_SIZE_def)


lemma list_all_upt3: "list_all P [0..<3] = (\<forall>i<3. P i)"
  by (auto simp: list_all_iff)

lemma list_all_len3: "length g = 3 \<Longrightarrow> list_all P g = (\<forall>i<3. P (g ! i))"
  by (auto simp: list_all_iff all_set_conv_all_nth)

lemma consistent_iff:
  "consistent m = (grid3 (arrangement m) \<and>
     (\<exists>r c. space_position m = Some (int r, int c) \<and> r < 3 \<and> c < 3 \<and>
        (\<forall>i<3. \<forall>j<3. (arrangement m ! i ! j = SPACE_VALUE) = (i = r \<and> j = c))))"
  (is "?L = ?R")
proof
  assume L: ?L
  then have len: "length (arrangement m) = 3" by (simp add: consistent_def)
  from L obtain r c where sp: "space_position m = Some (r, c)"
    by (auto simp: consistent_def split: option.splits)
  from L sp have bc: "0 \<le> r" "r < 3" "0 \<le> c" "c < 3"
    by (simp_all add: consistent_def boundary_check_iff del: boundary_check.simps)
  from L sp have cells: "\<forall>i<3. \<forall>j<3. (arrangement m ! i ! j = SPACE_VALUE) = (int i = r \<and> int j = c)"
    by (simp add: consistent_def list_all_upt3 del: boundary_check.simps)
  from L len have rows: "\<forall>i<3. length (arrangement m ! i) = 3"
    by (simp add: consistent_def list_all_len3)
  have "space_position m = Some (int (nat r), int (nat c))" using sp bc by simp
  moreover have "nat r < 3" "nat c < 3" using bc by simp_all
  moreover have "\<forall>i<3. \<forall>j<3. (arrangement m ! i ! j = SPACE_VALUE) = (i = nat r \<and> j = nat c)"
    using cells bc by auto
  ultimately show ?R using len rows unfolding grid3_def by blast
next
  assume R: ?R
  then obtain r c where sp: "space_position m = Some (int r, int c)" and rc: "r < 3" "c < 3"
    and cells: "\<forall>i<3. \<forall>j<3. (arrangement m ! i ! j = SPACE_VALUE) = (i = r \<and> j = c)" by blast
  from R have len: "length (arrangement m) = 3" and rows: "\<forall>i<3. length (arrangement m ! i) = 3"
    by (simp_all add: grid3_def)
  have "boundary_check [int r, int c]" using rc by (simp add: boundary_check_iff)
  then show ?L using sp len rows cells
    by (simp add: consistent_def list_all_upt3 list_all_len3 del: boundary_check.simps)
qed


lemma grid3_update:
  "grid3 g \<Longrightarrow> grid3 (g[i := (g ! i)[j := v]])"
  by (cases "i < 3") (auto simp: grid3_def nth_list_update)

lemma cell_update:
  "grid3 g \<Longrightarrow> i < 3 \<Longrightarrow> j < 3 \<Longrightarrow> i' < 3 \<Longrightarrow> j' < 3 \<Longrightarrow>
   g[i := (g ! i)[j := v]] ! i' ! j' = (if i' = i \<and> j' = j then v else g ! i' ! j')"
  by (auto simp: grid3_def nth_list_update)


lemma exchange_in_bounds:
  assumes "r1 < 3" "c1 < 3" "r2 < 3" "c2 < 3"
  shows "exchange self (int r1) (int c1) (int r2) (int c2) =
     Inr (Matrix (swap_cells (arrangement self) r1 c1 r2 c2)
            (if arrangement self ! r1 ! c1 = SPACE_VALUE then Some (int r2, int c2)
             else if arrangement self ! r2 ! c2 = SPACE_VALUE then Some (int r1, int c1)
             else space_position self)
            (parent self) (last_direction self))"
  using assms
  by (simp add: exchange_def fetch_def place_def boundary_check_iff swap_cells_def Let_def
        del: boundary_check.simps)

lemma swap_cells_grid3: "grid3 g \<Longrightarrow> grid3 (swap_cells g r1 c1 r2 c2)"
  by (simp add: swap_cells_def Let_def grid3_update)

lemma swap_cells_nth:
  assumes "grid3 g" "r1 < 3" "c1 < 3" "r2 < 3" "c2 < 3" "i < 3" "j < 3"
  shows "swap_cells g r1 c1 r2 c2 ! i ! j =
     (if i = r2 \<and> j = c2 then g ! r1 ! c1 else if i = r1 \<and> j = c1 then g ! r2 ! c2 else g ! i ! j)"
  using assms by (simp add: swap_cells_def Let_def cell_update grid3_update)


lemma direction_step:
  assumes "r < 3" "c < 3"
    and "boundary_check [int r + fst (direction_value d), int c + snd (direction_value d)]"
  shows "\<exists>r' c'. r' < 3 \<and> c' < 3 \<and> (r', c') \<noteq> (r, c) \<and>
     int r + fst (direction_value d) = int r' \<and> int c + snd (direction_value d) = int c'"
proof -
  let ?x = "int r + fst (direction_value d)" and ?y = "int c + snd (direction_value d)"
  from assms(3) have b: "0 \<le> ?x" "?x < 3" "0 \<le> ?y" "?y < 3"
    by (simp_all add: boundary_check_iff del: boundary_check.simps)
  have ne: "(nat ?x, nat ?y) \<noteq> (r, c)" using b by (cases d) auto
  show ?thesis
    by (rule exI[of _ "nat ?x"], rule exI[of _ "nat ?y"]) (use b ne in auto)
qed

lemma swap_consistent:
  assumes "consistent self" "space_position self = Some (int r, int c)"
    "r' < 3" "c' < 3" "(r', c') \<noteq> (r, c)"
  shows "consistent (Matrix (swap_cells (arrangement self) r c r' c') (Some (int r', int c')) p d)"
proof -
  from assms(1,2) have g: "grid3 (arrangement self)" and rc: "r < 3" "c < 3"
    and cells: "\<forall>i<3. \<forall>j<3. (arrangement self ! i ! j = SPACE_VALUE) = (i = r \<and> j = c)"
    by (auto simp: consistent_iff)
  have "\<forall>i<3. \<forall>j<3. (swap_cells (arrangement self) r c r' c' ! i ! j = SPACE_VALUE) = (i = r' \<and> j = c')"
    using cells assms(3-5) rc by (auto simp: swap_cells_nth[OF g rc assms(3,4)])
  then show ?thesis
    using swap_cells_grid3[OF g] assms(3,4) by (auto simp: consistent_iff)
qed

subsection \<open>The constructor on well-formed input\<close>

lemma place_in_bounds:
  "r < 3 \<Longrightarrow> c < 3 \<Longrightarrow> place self (int r) (int c) v = Inr (placed self r c v)"
  by (simp add: place_def placed_def boundary_check_iff Let_def del: boundary_check.simps)

lemma tile_chars:
  assumes "ch \<in> set ''12345678#''" "ch \<noteq> SPACE_SYMBOL"
  shows "int_of_char ch = Inr (cell_of ch)" "1 \<le> cell_of ch" "cell_of ch < 9"
  using assms by (auto simp: int_of_char_def cell_of_def SPACE_SYMBOL_def)

lemma cell_of_inj:
  "cell_of a = cell_of b \<Longrightarrow> a \<noteq> SPACE_SYMBOL \<Longrightarrow> b \<noteq> SPACE_SYMBOL \<Longrightarrow> a = b"
  by (simp add: cell_of_def)

lemma init_chars_ok:
  assumes "r < 3" "c + length cs \<le> 3" "set cs \<subseteq> set ''12345678#''" "distinct cs"
    "spaced \<longrightarrow> SPACE_SYMBOL \<notin> set cs"
    "\<forall>ch\<in>set cs. ch \<noteq> SPACE_SYMBOL \<longrightarrow> appeared (cell_of ch) = Some False"
  shows "init_chars (int r) (int c) cs (self, spaced, appeared) =
     Inr (placed_chars r c cs self, spaced \<or> SPACE_SYMBOL \<in> set cs,
          (\<lambda>n. if n \<in> cell_of ` (set cs - {SPACE_SYMBOL}) then Some True else appeared n))"
  using assms
proof (induction cs arbitrary: c self spaced appeared)
  case Nil
  then show ?case by simp
next
  case (Cons ch cs)
  have c: "c < 3" "Suc c + length cs \<le> 3" using Cons.prems(2) by simp_all
  have rest: "set cs \<subseteq> set ''12345678#''" "distinct cs" "ch \<notin> set cs" "ch \<in> set ''12345678#''"
    using Cons.prems(3,4) by auto
  have step: "int c + 1 = int (Suc c)" by simp
  show ?case
  proof (cases "ch = SPACE_SYMBOL")
    case True
    with Cons.prems(5) have ns: "\<not> spaced" by auto
    have ih: "init_chars (int r) (int (Suc c)) cs (placed self r c SPACE_VALUE, True, appeared) =
       Inr (placed_chars r (Suc c) cs (placed self r c SPACE_VALUE), True \<or> SPACE_SYMBOL \<in> set cs,
          (\<lambda>n. if n \<in> cell_of ` (set cs - {SPACE_SYMBOL}) then Some True else appeared n))"
      using Cons.prems(6) True rest
      by (intro Cons.IH[OF Cons.prems(1) c(2) rest(1,2)]) auto
    have "set (ch # cs) - {SPACE_SYMBOL} = set cs - {SPACE_SYMBOL}" using True by auto
    then show ?thesis
      using True ns ih
      by (simp add: place_in_bounds[OF Cons.prems(1) c(1)] step cell_of_def del: of_nat_Suc)
  next
    case False
    have v: "int_of_char ch = Inr (cell_of ch)" using tile_chars(1)[OF rest(4) False] .
    have app: "appeared (cell_of ch) = Some False" using Cons.prems(6) False by simp
    have nsv: "cell_of ch \<noteq> SPACE_VALUE" using tile_chars(2)[OF rest(4) False] by (simp add: SPACE_VALUE_def)
    have later: "\<forall>x\<in>set cs. x \<noteq> SPACE_SYMBOL \<longrightarrow> (appeared(cell_of ch \<mapsto> True)) (cell_of x) = Some False"
      using Cons.prems(6) rest(3) False cell_of_inj by auto
    have ih: "init_chars (int r) (int (Suc c)) cs (placed self r c (cell_of ch), spaced, appeared(cell_of ch \<mapsto> True)) =
       Inr (placed_chars r (Suc c) cs (placed self r c (cell_of ch)), spaced \<or> SPACE_SYMBOL \<in> set cs,
          (\<lambda>n. if n \<in> cell_of ` (set cs - {SPACE_SYMBOL}) then Some True else (appeared(cell_of ch \<mapsto> True)) n))"
      using Cons.prems(5) later
      by (intro Cons.IH[OF Cons.prems(1) c(2) rest(1,2)]) auto
    have "(\<lambda>n. if n \<in> cell_of ` (set cs - {SPACE_SYMBOL}) then Some True else (appeared(cell_of ch \<mapsto> True)) n)
        = (\<lambda>n. if n \<in> cell_of ` (set (ch # cs) - {SPACE_SYMBOL}) then Some True else appeared n)"
      using False by (auto simp: fun_eq_iff)
    then show ?thesis
      using False ih v app
      by (simp add: place_in_bounds[OF Cons.prems(1) c(1)] step del: of_nat_Suc)
  qed
qed


lemma strip_id: "set line \<subseteq> set ''12345678#'' \<Longrightarrow> strip line = line"
proof -
  assume a: "set line \<subseteq> set ''12345678#''"
  have ns: "\<forall>ch\<in>set line. \<not> is_space ch" using a by (auto simp: is_space_def)
  have dw: "dropWhile is_space xs = xs" if "\<forall>ch\<in>set xs. \<not> is_space ch" for xs
    using that by (cases xs) auto
  have 1: "dropWhile is_space line = line" using ns by (rule dw)
  have 2: "dropWhile is_space (rev line) = rev line" using ns by (intro dw) simp
  show ?thesis by (simp add: strip_def 1 2)
qed

lemma init_lines_ok:
  assumes "r + length ls \<le> 3" "\<forall>l\<in>set ls. length l = 3" "set (concat ls) \<subseteq> set ''12345678#''"
    "distinct (concat ls)"
    "spaced \<longrightarrow> SPACE_SYMBOL \<notin> set (concat ls)"
    "\<forall>ch\<in>set (concat ls). ch \<noteq> SPACE_SYMBOL \<longrightarrow> appeared (cell_of ch) = Some False"
  shows "\<exists>sp ap. init_lines (int r) ls (self, spaced, appeared) = Inr (placed_lines r ls self, sp, ap)"
  using assms
proof (induction ls arbitrary: r self spaced appeared)
  case Nil
  then show ?case by simp
next
  case (Cons l ls)
  have r: "r < 3" "Suc r + length ls \<le> 3" using Cons.prems(1) by simp_all
  have l: "length l = 3" "set l \<subseteq> set ''12345678#''" "distinct l" "0 + length l \<le> 3"
    using Cons.prems(2,3,4) by auto
  have bc: "boundary_check [int r]" using r by (simp add: boundary_check_iff)
  have first: "init_chars (int r) (int 0) l (self, spaced, appeared) =
     Inr (placed_chars r 0 l self, spaced \<or> SPACE_SYMBOL \<in> set l,
          (\<lambda>n. if n \<in> cell_of ` (set l - {SPACE_SYMBOL}) then Some True else appeared n))"
    using Cons.prems(5,6) by (intro init_chars_ok[OF r(1) l(4) l(2) l(3)]) auto
  have disj: "set l \<inter> set (concat ls) = {}" using Cons.prems(4) by auto
  have later: "\<forall>ch\<in>set (concat ls). ch \<noteq> SPACE_SYMBOL \<longrightarrow>
      (\<lambda>n. if n \<in> cell_of ` (set l - {SPACE_SYMBOL}) then Some True else appeared n) (cell_of ch) = Some False"
  proof (intro ballI impI)
    fix ch assume ch: "ch \<in> set (concat ls)" "ch \<noteq> SPACE_SYMBOL"
    have "cell_of ch \<notin> cell_of ` (set l - {SPACE_SYMBOL})"
    proof
      assume "cell_of ch \<in> cell_of ` (set l - {SPACE_SYMBOL})"
      then obtain x where x: "x \<in> set l" "x \<noteq> SPACE_SYMBOL" "cell_of ch = cell_of x" by auto
      then have "ch = x" using cell_of_inj ch(2) by blast
      then show False using disj ch(1) x(1) by auto
    qed
    moreover have "appeared (cell_of ch) = Some False" using Cons.prems(6) ch by simp
    ultimately show "(if cell_of ch \<in> cell_of ` (set l - {SPACE_SYMBOL}) then Some True else appeared (cell_of ch)) = Some False"
      by simp
  qed
  have sp: "(spaced \<or> SPACE_SYMBOL \<in> set l) \<longrightarrow> SPACE_SYMBOL \<notin> set (concat ls)"
    using Cons.prems(5) disj by auto
  have ih: "\<exists>sp ap. init_lines (int (Suc r)) ls (placed_chars r 0 l self, spaced \<or> SPACE_SYMBOL \<in> set l,
          (\<lambda>n. if n \<in> cell_of ` (set l - {SPACE_SYMBOL}) then Some True else appeared n))
        = Inr (placed_lines (Suc r) ls (placed_chars r 0 l self), sp, ap)"
    using Cons.prems(2,3,4) by (intro Cons.IH[OF r(2) _ _ _ sp later]) auto
  have step: "int r + 1 = int (Suc r)" by simp
  show ?case
    using ih first bc l(1)
    by (simp add: strip_id[OF l(2)] MATRIX_SIZE_def step del: boundary_check.simps of_nat_Suc)
qed


lemma len3: "length xs = 3 \<Longrightarrow> \<exists>a b c. xs = [a, b, c]"
  by (cases xs; simp; cases "tl xs"; simp; cases "tl (tl xs)"; auto)

lemma cell_of_blank: "ch \<in> set ''12345678#'' \<Longrightarrow> (cell_of ch = SPACE_VALUE) = (ch = SPACE_SYMBOL)"
  by (auto simp: cell_of_def SPACE_VALUE_def SPACE_SYMBOL_def)

lemma Matrix_init_ok:
  assumes "well_formed_input data"
  shows "Matrix_init (Some data) = Inr (placed_lines 0 data Matrix_blank)"
proof -
  from assms have a: "0 + length data \<le> 3" "\<forall>l\<in>set data. length l = 3"
    "set (concat data) \<subseteq> set ''12345678#''" "distinct (concat data)"
    by (simp_all add: well_formed_input_def list_all_iff)
  have b: "\<forall>ch\<in>set (concat data). ch \<noteq> SPACE_SYMBOL \<longrightarrow> appeared_init (cell_of ch) = Some False"
  proof (intro ballI impI)
    fix ch assume "ch \<in> set (concat data)" "ch \<noteq> SPACE_SYMBOL"
    then have "1 \<le> cell_of ch" "cell_of ch < 9" using a(3) tile_chars(2,3) by blast+
    then show "appeared_init (cell_of ch) = Some False" by (simp add: appeared_init_def MATRIX_SIZE_def)
  qed
  have "\<exists>sp ap. init_lines (int 0) data (Matrix_blank, False, appeared_init) =
      Inr (placed_lines 0 data Matrix_blank, sp, ap)"
    using b by (intro init_lines_ok[OF a]) auto
  then show ?thesis by (auto simp: Matrix_init_def)
qed

lemma placed_lines_consistent:
  assumes "well_formed_input data"
  shows "consistent (placed_lines 0 data Matrix_blank)"
proof -
  from assms obtain l1 l2 l3 where d: "data = [l1, l2, l3]"
    using len3 unfolding well_formed_input_def by blast
  from assms d have "length l1 = 3" "length l2 = 3" "length l3 = 3"
    by (simp_all add: well_formed_input_def)
  then obtain a b c d' e f g h i where l: "l1 = [a, b, c]" "l2 = [d', e, f]" "l3 = [g, h, i]"
    by (metis len3)
  let ?cs = "[a, b, c, d', e, f, g, h, i]"
  from assms d l have dist: "distinct ?cs" and st: "set ?cs = set ''12345678#''"
    by (simp_all add: well_formed_input_def)
  have mem: "\<forall>x\<in>set ?cs. (cell_of x = SPACE_VALUE) = (x = SPACE_SYMBOL)"
    using st cell_of_blank by blast
  have "SPACE_SYMBOL \<in> set ?cs" unfolding st by (simp add: SPACE_SYMBOL_def)
  then consider "a = SPACE_SYMBOL" | "b = SPACE_SYMBOL" | "c = SPACE_SYMBOL" | "d' = SPACE_SYMBOL"
    | "e = SPACE_SYMBOL" | "f = SPACE_SYMBOL" | "g = SPACE_SYMBOL" | "h = SPACE_SYMBOL" | "i = SPACE_SYMBOL"
    by auto
  then show ?thesis
    using dist mem
    by cases (auto simp add: d l consistent_def placed_def Matrix_blank_def MATRIX_SIZE_def
        numeral_3_eq_3 upt_rec)
qed

subsection \<open>Moves\<close>

lemma move_eq:
  assumes "consistent m" "space_position m = Some (sx, sy)"
  shows "move m sx sy d = Inr (if legal m d then Some (moved m d) else None)"
proof (cases "legal m d")
  case False
  then show ?thesis using assms(2)
    by (simp add: legal_def move_def split_beta Let_def del: boundary_check.simps)
next
  case True
  from assms obtain r c where rc: "sx = int r" "sy = int c" "r < 3" "c < 3"
    and cells: "\<forall>i<3. \<forall>j<3. (arrangement m ! i ! j = SPACE_VALUE) = (i = r \<and> j = c)"
    by (auto simp: consistent_iff)
  from True assms(2) rc have bc:
    "boundary_check [int r + fst (direction_value d), int c + snd (direction_value d)]"
    by (simp add: legal_def del: boundary_check.simps)
  from direction_step[OF rc(3,4) bc] obtain r' c' where
    d: "r' < 3" "c' < 3" "int r + fst (direction_value d) = int r'"
       "int c + snd (direction_value d) = int c'"
    by blast
  have blank: "arrangement m ! r ! c = SPACE_VALUE" using cells rc by simp
  have 1: "move m sx sy d =
      Inr (Some (Matrix (swap_cells (arrangement m) r c r' c') (Some (int r', int c'))
                           (Some m) (Some d)))"
    using bc rc d blank
    by (simp add: move_def split_beta Let_def exchange_in_bounds clone_def del: boundary_check.simps)
  have 2: "moved m d = Matrix (swap_cells (arrangement m) r c r' c') (Some (int r', int c')) (Some m) (Some d)"
    using assms(2) rc d by (simp add: moved_def Let_def)
  show ?thesis using True 1 2 by simp
qed

lemma play_only_eq:
  assumes "consistent m"
  shows "play_only m d = Inr (if legal m d then Some (moved m d) else None)"
proof -
  from assms obtain x y where sp: "space_position m = Some (x, y)"
    by (auto simp: consistent_iff)
  show ?thesis using move_eq[OF assms sp, of d] by (simp add: play_only_def sp)
qed

lemma moved_consistent:
  assumes "consistent m" "legal m d"
  shows "consistent (moved m d)"
proof -
  from assms obtain r c where sp: "space_position m = Some (int r, int c)" and rc: "r < 3" "c < 3"
    by (auto simp: consistent_iff)
  from assms(2) sp have "boundary_check [int r + fst (direction_value d), int c + snd (direction_value d)]"
    by (simp add: legal_def del: boundary_check.simps)
  from direction_step[OF rc this] obtain r' c' where
    d: "r' < 3" "c' < 3" "(r', c') \<noteq> (r, c)" "int r + fst (direction_value d) = int r'"
       "int c + snd (direction_value d) = int c'"
    by blast
  have "moved m d = Matrix (swap_cells (arrangement m) r c r' c') (Some (int r', int c')) (Some m) (Some d)"
    by (simp add: moved_def sp Let_def d(4,5))
  then show ?thesis using swap_consistent[OF assms(1) sp d(1,2,3)] by simp
qed

lemma moved_fields:
  "consistent m \<Longrightarrow> parent (moved m d) = Some m"
  "consistent m \<Longrightarrow> last_direction (moved m d) = Some d"
  by (auto simp: consistent_iff moved_def Let_def)

lemma play_loop_eq:
  assumes "consistent m" "space_position m = Some (x, y)"
  shows "play_loop m x y forb ds acc =
     Inr (acc @ map (moved m)
            (filter (\<lambda>d. \<not> (case forb of None \<Rightarrow> False | Some fs \<Rightarrow> d \<in> set fs) \<and> legal m d) ds))"
proof (induction ds arbitrary: acc)
  case Nil
  then show ?case by simp
next
  case (Cons d ds)
  have mv: "move m x y d = Inr (if legal m d then Some (moved m d) else None)"
    by (rule move_eq[OF assms])
  show ?case by (simp add: mv Cons.IH)
qed

lemma play_eq:
  assumes "consistent m"
  shows "play m forb =
     Inr (map (moved m)
            (filter (\<lambda>d. \<not> (case forb of None \<Rightarrow> False | Some fs \<Rightarrow> d \<in> set fs) \<and> legal m d)
               [LEFT, UP, RIGHT, DOWN]))"
proof -
  from assms obtain x y where sp: "space_position m = Some (x, y)" by (auto simp: consistent_iff)
  show ?thesis
    using play_loop_eq[OF assms sp, of forb Direction_members "[]"]
    by (simp add: play_def sp Direction_members_def)
qed

lemma play_towards_eq:
  assumes "consistent m"
  shows "play_towards m ds = Inr (map (moved m) (filter (legal m) ds))"
proof -
  from assms obtain x y where sp: "space_position m = Some (x, y)" by (auto simp: consistent_iff)
  show ?thesis
    using play_loop_eq[OF assms sp, of None ds "[]"]
    by (simp add: play_towards_def sp)
qed

lemma clone_consistent: "consistent m \<Longrightarrow> consistent (clone m)"
  by (simp add: consistent_iff clone_def)

lemma exchange_consistent:
  assumes "consistent m"
  shows "\<exists>m'. exchange m x1 y1 x2 y2 = Inr m' \<and> consistent m'"
proof (cases "boundary_check [x1, x2, y1, y2]")
  case False
  then show ?thesis using assms by (simp add: exchange_def del: boundary_check.simps)
next
  case True
  then obtain r1 c1 r2 c2 where xy: "x1 = int r1" "y1 = int c1" "x2 = int r2" "y2 = int c2"
    and b: "r1 < 3" "c1 < 3" "r2 < 3" "c2 < 3"
    by (simp add: boundary_check_iff del: boundary_check.simps)
       (metis zero_le_imp_eq_int of_nat_less_iff of_nat_numeral)
  from assms obtain r c where g: "grid3 (arrangement m)" and sp: "space_position m = Some (int r, int c)"
    and rc: "r < 3" "c < 3"
    and cells: "\<forall>i<3. \<forall>j<3. (arrangement m ! i ! j = SPACE_VALUE) = (i = r \<and> j = c)"
    by (auto simp: consistent_iff)
  let ?m' = "Matrix (swap_cells (arrangement m) r1 c1 r2 c2)
            (if arrangement m ! r1 ! c1 = SPACE_VALUE then Some (int r2, int c2)
             else if arrangement m ! r2 ! c2 = SPACE_VALUE then Some (int r1, int c1)
             else space_position m)
            (parent m) (last_direction m)"
  have ex: "exchange m x1 y1 x2 y2 = Inr ?m'" unfolding xy by (rule exchange_in_bounds[OF b])
  have "consistent ?m'"
    unfolding consistent_iff
    using swap_cells_grid3[OF g, of r1 c1 r2 c2] cells b rc sp
    by (auto simp: swap_cells_nth[OF g b])
  then show ?thesis using ex by blast
qed

subsection \<open>Steps between adjacent states\<close>

lemma py_range_3: "py_range 3 = [0, 1, 2]"
  by (simp add: py_range_def upt_rec)

lemma fetch_in_bounds:
  "fetch m 0 0 = Inr (arrangement m ! 0 ! 0)" "fetch m 0 1 = Inr (arrangement m ! 0 ! 1)"
  "fetch m 0 2 = Inr (arrangement m ! 0 ! 2)" "fetch m 1 0 = Inr (arrangement m ! 1 ! 0)"
  "fetch m 1 1 = Inr (arrangement m ! 1 ! 1)" "fetch m 1 2 = Inr (arrangement m ! 1 ! 2)"
  "fetch m 2 0 = Inr (arrangement m ! 2 ! 0)" "fetch m 2 1 = Inr (arrangement m ! 2 ! 1)"
  "fetch m 2 2 = Inr (arrangement m ! 2 ! 2)"
  by (simp_all add: fetch_def MATRIX_SIZE_def)

lemma differentiate_eq:
  "differentiate old new = Inr (fold (diff_step (arrangement old) (arrangement new)) cells9 [])"
  by (simp add: differentiate_def py_range_3 fetch_in_bounds cells9_def diff_step_def)


lemma diff_fold_pair:
  assumes t: "t \<noteq> b"
    and cells: "\<forall>(i, j)\<in>set xs. old ! i ! j \<noteq> new ! i ! j \<longrightarrow> {old ! i ! j, new ! i ! j} = {b, t}"
    and acc: "acc = [] \<or> acc = [b, t] \<or> acc = [t, b]"
  shows "(let r = fold (diff_step old new) xs acc in
          (r = [] \<and> acc = [] \<and> (\<forall>(i, j)\<in>set xs. old ! i ! j = new ! i ! j)) \<or> r = [b, t] \<or> r = [t, b])"
  using cells acc
proof (induction xs arbitrary: acc)
  case Nil
  then show ?case by auto
next
  case (Cons x xs)
  obtain i j where x: "x = (i, j)" by (cases x)
  let ?a = "diff_step old new x acc"
  have step: "(?a = [] \<and> acc = [] \<and> old ! i ! j = new ! i ! j) \<or> ?a = [b, t] \<or> ?a = [t, b]"
  proof (cases "old ! i ! j = new ! i ! j")
    case True
    then show ?thesis using Cons.prems(2) by (auto simp: diff_step_def x)
  next
    case False
    then have "{old ! i ! j, new ! i ! j} = {b, t}" using Cons.prems(1) x by auto
    then have "(old ! i ! j = b \<and> new ! i ! j = t) \<or> (old ! i ! j = t \<and> new ! i ! j = b)"
      using False by (auto simp: doubleton_eq_iff)
    then show ?thesis using Cons.prems(2) t False
      by (auto simp: diff_step_def x set_add_def)
  qed
  have ih: "(let r = fold (diff_step old new) xs ?a in
          (r = [] \<and> ?a = [] \<and> (\<forall>(i, j)\<in>set xs. old ! i ! j = new ! i ! j)) \<or> r = [b, t] \<or> r = [t, b])"
    using Cons.prems(1) step by (intro Cons.IH) auto
  show ?case using ih step by (auto simp: Let_def x)
qed

lemma SolutionStep_moved:
  assumes "consistent m" "legal m d"
  shows "\<exists>t. SolutionStep_init m (moved m d) = Inr \<lparr>click = Some t, target = clone (moved m d)\<rparr> \<and>
     t \<noteq> SPACE_VALUE \<and>
     {v. v \<noteq> SPACE_VALUE \<and>
         (\<exists>i<3. \<exists>j<3. arrangement m ! i ! j = v \<and> arrangement (moved m d) ! i ! j \<noteq> v)} = {t}"
proof -
  from assms obtain r c where sp: "space_position m = Some (int r, int c)" and rc: "r < 3" "c < 3"
    and g: "grid3 (arrangement m)"
    and cells: "\<forall>i<3. \<forall>j<3. (arrangement m ! i ! j = SPACE_VALUE) = (i = r \<and> j = c)"
    by (auto simp: consistent_iff)
  from assms(2) sp have "boundary_check [int r + fst (direction_value d), int c + snd (direction_value d)]"
    by (simp add: legal_def del: boundary_check.simps)
  from direction_step[OF rc this] obtain r' c' where
    d: "r' < 3" "c' < 3" "(r', c') \<noteq> (r, c)" "int r + fst (direction_value d) = int r'"
       "int c + snd (direction_value d) = int c'"
    by blast
  let ?g = "arrangement m" and ?n = "swap_cells (arrangement m) r c r' c'"
  let ?t = "?g ! r' ! c'"
  have mv: "moved m d = Matrix ?n (Some (int r', int c')) (Some m) (Some d)"
    by (simp add: moved_def sp Let_def d(4,5))
  have t: "?t \<noteq> SPACE_VALUE" using cells d by auto
  have blank: "?g ! r ! c = SPACE_VALUE" using cells rc by simp
  have nth: "\<And>i j. i < 3 \<Longrightarrow> j < 3 \<Longrightarrow> ?n ! i ! j =
      (if i = r' \<and> j = c' then SPACE_VALUE else if i = r \<and> j = c then ?t else ?g ! i ! j)"
    using swap_cells_nth[OF g rc d(1,2)] blank by simp
  have in9: "\<forall>(i, j)\<in>set cells9. i < 3 \<and> j < 3" by (simp add: cells9_def)
  have all9: "\<And>i j. i < 3 \<Longrightarrow> j < 3 \<Longrightarrow> (i, j) \<in> set cells9"
  proof -
    fix i j :: nat assume "i < 3" "j < 3"
    then have "i \<in> {0, 1, 2}" "j \<in> {0, 1, 2}" by auto
    then show "(i, j) \<in> set cells9" by (auto simp: cells9_def)
  qed
  have pair: "\<forall>(i, j)\<in>set cells9. ?g ! i ! j \<noteq> ?n ! i ! j \<longrightarrow> {?g ! i ! j, ?n ! i ! j} = {SPACE_VALUE, ?t}"
  proof (intro ballI, clarify)
    fix i j assume "(i, j) \<in> set cells9" and ne: "?g ! i ! j \<noteq> ?n ! i ! j"
    then have ij: "i < 3" "j < 3" using in9 by auto
    from ne nth[OF ij] have "(i = r' \<and> j = c') \<or> (i = r \<and> j = c)" by (auto split: if_splits)
    then show "{?g ! i ! j, ?n ! i ! j} = {SPACE_VALUE, ?t}"
      using nth[OF ij] blank d(3) by (auto simp: doubleton_eq_iff)
  qed
  from diff_fold_pair[OF t pair, of "[]"]
  have "(let r = fold (diff_step ?g ?n) cells9 [] in
          (r = [] \<and> (\<forall>(i, j)\<in>set cells9. ?g ! i ! j = ?n ! i ! j)) \<or> r = [SPACE_VALUE, ?t] \<or> r = [?t, SPACE_VALUE])"
    by (simp add: Let_def)
  moreover have "?g ! r ! c \<noteq> ?n ! r ! c" using nth[OF rc] d(3) t blank by auto
  then have "\<not> (\<forall>(i, j)\<in>set cells9. ?g ! i ! j = ?n ! i ! j)" using all9[OF rc] by blast
  ultimately have diff: "fold (diff_step ?g ?n) cells9 [] = [SPACE_VALUE, ?t] \<or>
      fold (diff_step ?g ?n) cells9 [] = [?t, SPACE_VALUE]"
    by (auto simp: Let_def)
  have step: "SolutionStep_init m (moved m d) = Inr \<lparr>click = Some ?t, target = clone (moved m d)\<rparr>"
    using diff t by (auto simp: SolutionStep_init_def differentiate_eq mv)
  have "{v. v \<noteq> SPACE_VALUE \<and> (\<exists>i<3. \<exists>j<3. ?g ! i ! j = v \<and> ?n ! i ! j \<noteq> v)} = {?t}"
  proof (intro set_eqI iffI)
    fix v assume "v \<in> {v. v \<noteq> SPACE_VALUE \<and> (\<exists>i<3. \<exists>j<3. ?g ! i ! j = v \<and> ?n ! i ! j \<noteq> v)}"
    then obtain i j where ij: "i < 3" "j < 3" "?g ! i ! j = v" "?n ! i ! j \<noteq> v" "v \<noteq> SPACE_VALUE"
      by blast
    then have "i = r' \<and> j = c'" using nth[OF ij(1,2)] blank by (auto split: if_splits)
    then show "v \<in> {?t}" using ij(3) by simp
  next
    fix v assume "v \<in> {?t}"
    then have v: "v = ?t" by simp
    have "?n ! r' ! c' = SPACE_VALUE" using nth[OF d(1,2)] by simp
    then have "?g ! r' ! c' = v \<and> ?n ! r' ! c' \<noteq> v" using v t by simp
    then have "\<exists>i<3. \<exists>j<3. ?g ! i ! j = v \<and> ?n ! i ! j \<noteq> v" using d(1,2) by blast
    then show "v \<in> {v. v \<noteq> SPACE_VALUE \<and> (\<exists>i<3. \<exists>j<3. ?g ! i ! j = v \<and> ?n ! i ! j \<noteq> v)}"
      using v t by simp
  qed
  then show ?thesis using step t mv by auto
qed

section \<open>The blank position, the successors and the steps\<close>

lemma example_initial_consistent: "consistent example_initial"
  by (simp add: consistent_def example_initial_def MATRIX_SIZE_def SPACE_VALUE_def upt_rec)

lemma example_lines_well_formed: "well_formed_input example_lines"
  by (auto simp: well_formed_input_def example_lines_def)

lemma example_init: "Matrix_init (Some example_lines) = Inr example_initial"
  by code_simp

text \<open>
  Claim C9.  The constructor on well-formed input yields a matrix whose cached blank
  position is the cell of the grid that holds \<open>SPACE_VALUE\<close>, and \<open>clone\<close>, \<open>play\<close>,
  \<open>play_towards\<close>, \<open>play_only\<close> and \<open>exchange\<close> (with its two calls of \<open>place\<close>) keep
  the cache consistent with the grid.
\<close>

theorem blank_position_consistent:
  "(well_formed_input data \<longrightarrow> (\<exists>m. Matrix_init (Some data) = Inr m \<and> consistent m)) \<and>
   (consistent m \<longrightarrow>
      consistent (clone m) \<and>
      (\<exists>ms. play m forbidden = Inr ms \<and> list_all consistent ms) \<and>
      (\<exists>ms. play_towards m towards = Inr ms \<and> list_all consistent ms) \<and>
      (\<exists>r. play_only m d = Inr r \<and> (case r of None \<Rightarrow> True | Some m' \<Rightarrow> consistent m')) \<and>
      (\<exists>m'. exchange m x1 y1 x2 y2 = Inr m' \<and> consistent m'))"
proof (intro conjI impI)
  assume "well_formed_input data"
  then show "\<exists>m. Matrix_init (Some data) = Inr m \<and> consistent m"
    using Matrix_init_ok placed_lines_consistent by blast
next
  assume c: "consistent m"
  show "consistent (clone m)" using c by (rule clone_consistent)
  show "\<exists>ms. play m forbidden = Inr ms \<and> list_all consistent ms"
    using c by (simp add: play_eq list_all_iff moved_consistent)
  show "\<exists>ms. play_towards m towards = Inr ms \<and> list_all consistent ms"
    using c by (simp add: play_towards_eq list_all_iff moved_consistent)
  show "\<exists>r. play_only m d = Inr r \<and> (case r of None \<Rightarrow> True | Some m' \<Rightarrow> consistent m')"
    using c by (simp add: play_only_eq moved_consistent)
  show "\<exists>m'. exchange m x1 y1 x2 y2 = Inr m' \<and> consistent m'"
    using c by (rule exchange_consistent)
qed

theorem blank_position_consistent_witness:
  "well_formed_input example_lines \<and> consistent example_initial \<and>
   (\<exists>m. Matrix_init (Some example_lines) = Inr m \<and> consistent m) \<and>
   consistent (clone example_initial) \<and>
   (\<exists>ms. play example_initial None = Inr ms \<and> list_all consistent ms) \<and>
   (\<exists>ms. play_towards example_initial [UP, LEFT] = Inr ms \<and> list_all consistent ms) \<and>
   (\<exists>r. play_only example_initial RIGHT = Inr r \<and> (case r of None \<Rightarrow> True | Some m' \<Rightarrow> consistent m')) \<and>
   (\<exists>m'. exchange example_initial 1 1 1 2 = Inr m' \<and> consistent m')"
  using blank_position_consistent [of example_lines example_initial None "[UP, LEFT]" RIGHT 1 1 1 2]
    example_lines_well_formed example_initial_consistent
  by simp

text \<open>
  Claim C8.  From a state \<open>G\<close>, \<open>play\<close> returns at most four successors, each with its
  blank inside the grid, and they are the results of the legal moves in the order
  \<open>LEFT\<close>, \<open>UP\<close>, \<open>RIGHT\<close>, \<open>DOWN\<close>; the list is a function of \<open>G\<close> alone.
\<close>

theorem play_successors:
  assumes "consistent G"
  shows "\<exists>ms. play G None = Inr ms \<and> length ms \<le> 4 \<and>
     list_all (\<lambda>m. case space_position m of
                      None \<Rightarrow> False
                    | Some (r, c) \<Rightarrow> boundary_check [r, c] \<and> fetch m r c = Inr SPACE_VALUE) ms \<and>
     ms = concat (map (\<lambda>d. case play_only G d of Inr (Some m) \<Rightarrow> [m] | _ \<Rightarrow> [])
                    [LEFT, UP, RIGHT, DOWN]) \<and>
     map last_direction ms =
       map Some (filter (\<lambda>d. play_only G d \<noteq> Inr None) [LEFT, UP, RIGHT, DOWN])"
proof -
  let ?ms = "map (moved G) (filter (legal G) [LEFT, UP, RIGHT, DOWN])"
  have p: "play G None = Inr ?ms" using play_eq[OF assms, of None] by simp
  have len: "length ?ms \<le> 4" by simp
  have blank: "case space_position m of None \<Rightarrow> False
      | Some (r, c) \<Rightarrow> boundary_check [r, c] \<and> fetch m r c = Inr SPACE_VALUE"
    if "consistent m" for m
  proof -
    from that obtain r c where "space_position m = Some (int r, int c)" "r < 3" "c < 3"
      "arrangement m ! r ! c = SPACE_VALUE" by (auto simp: consistent_iff)
    then show ?thesis by (simp add: fetch_def boundary_check_iff del: boundary_check.simps)
  qed
  have all: "list_all (\<lambda>m. case space_position m of None \<Rightarrow> False
      | Some (r, c) \<Rightarrow> boundary_check [r, c] \<and> fetch m r c = Inr SPACE_VALUE) ?ms"
    unfolding list_all_iff using blank moved_consistent[OF assms] by auto
  have order: "?ms = concat (map (\<lambda>d. case play_only G d of Inr (Some m) \<Rightarrow> [m] | _ \<Rightarrow> [])
                    [LEFT, UP, RIGHT, DOWN])"
    by (simp add: play_only_eq[OF assms])
  have dirs: "map last_direction ?ms =
       map Some (filter (\<lambda>d. play_only G d \<noteq> Inr None) [LEFT, UP, RIGHT, DOWN])"
    by (simp add: play_only_eq[OF assms] moved_fields(2)[OF assms])
  show ?thesis using p len all order dirs by blast
qed


theorem play_successors_witness:
  "consistent example_initial \<and>
   (\<exists>ms. play example_initial None = Inr ms \<and> length ms \<le> 4 \<and>
     list_all (\<lambda>m. case space_position m of
                      None \<Rightarrow> False
                    | Some (r, c) \<Rightarrow> boundary_check [r, c] \<and> fetch m r c = Inr SPACE_VALUE) ms \<and>
     ms = concat (map (\<lambda>d. case play_only example_initial d of Inr (Some m) \<Rightarrow> [m] | _ \<Rightarrow> [])
                    [LEFT, UP, RIGHT, DOWN]) \<and>
     map last_direction ms =
       map Some (filter (\<lambda>d. play_only example_initial d \<noteq> Inr None) [LEFT, UP, RIGHT, DOWN]))"
  using play_successors [of example_initial] example_initial_consistent by simp

text \<open>
  Claim C3.  When \<open>B\<close> is the result of \<open>play_only\<close> on \<open>A\<close>, the construction of the step
  from \<open>A\<close> to \<open>B\<close> does not raise, and \<open>click\<close> is the one non-blank value whose position
  differs between the two grids.
\<close>

theorem step_of_legal_move:
  assumes "consistent A" "play_only A d = Inr (Some B)"
  shows "\<exists>t. SolutionStep_init A B = Inr \<lparr>click = Some t, target = clone B\<rparr> \<and>
     t \<noteq> SPACE_VALUE \<and>
     {v. v \<noteq> SPACE_VALUE \<and>
         (\<exists>i<3. \<exists>j<3. arrangement A ! i ! j = v \<and> arrangement B ! i ! j \<noteq> v)} = {t}"
proof -
  from assms have "legal A d" "B = moved A d"
    by (auto simp: play_only_eq split: if_splits)
  then show ?thesis using SolutionStep_moved[OF assms(1)] by simp
qed

lemma example_move_right:
  "play_only example_initial RIGHT =
     Inr (Some (Matrix [[1, 2, 3], [4, 5, - 1], [6, 7, 8]] (Some (1, 2)) (Some example_initial) (Some RIGHT)))"
  by code_simp

theorem step_of_legal_move_witness:
  "consistent example_initial \<and>
   play_only example_initial RIGHT =
     Inr (Some (Matrix [[1, 2, 3], [4, 5, - 1], [6, 7, 8]] (Some (1, 2)) (Some example_initial) (Some RIGHT))) \<and>
   (\<exists>t. SolutionStep_init example_initial
           (Matrix [[1, 2, 3], [4, 5, - 1], [6, 7, 8]] (Some (1, 2)) (Some example_initial) (Some RIGHT)) =
         Inr \<lparr>click = Some t,
              target = clone (Matrix [[1, 2, 3], [4, 5, - 1], [6, 7, 8]] (Some (1, 2))
                                (Some example_initial) (Some RIGHT))\<rparr> \<and>
     t \<noteq> SPACE_VALUE \<and>
     {v. v \<noteq> SPACE_VALUE \<and>
         (\<exists>i<3. \<exists>j<3. arrangement example_initial ! i ! j = v \<and>
            arrangement (Matrix [[1, 2, 3], [4, 5, - 1], [6, 7, 8]] (Some (1, 2))
                           (Some example_initial) (Some RIGHT)) ! i ! j \<noteq> v)} = {t})"
  using step_of_legal_move [OF example_initial_consistent example_move_right]
    example_initial_consistent example_move_right
  by simp

text \<open>
  Claim C2.  The construction of a step is meant to raise \<open>InvalidStepException\<close> for every
  pair of states that is not one legal move apart.  It does not: from \<open>123 / 4#5 / 678\<close> to
  \<open>#23 / 415 / 678\<close> the blank and tile 1 exchange places diagonally, none of the four moves
  of the first state yields the second grid, and yet a step clicking 1 is built.
\<close>

theorem step_accepts_diagonal_exchange:
  "SolutionStep_init example_initial example_diagonal =
     Inr \<lparr>click = Some 1, target = clone example_diagonal\<rparr> \<and>
   map (\<lambda>d. case play_only example_initial d of Inr (Some m) \<Rightarrow> Some (arrangement m) | _ \<Rightarrow> None)
     DIRECTIONS =
     [Some [[1, 2, 3], [- 1, 4, 5], [6, 7, 8]], Some [[1, - 1, 3], [4, 2, 5], [6, 7, 8]],
      Some [[1, 2, 3], [4, 5, - 1], [6, 7, 8]], Some [[1, 2, 3], [4, 7, 5], [6, - 1, 8]]] \<and>
   arrangement example_diagonal = [[- 1, 2, 3], [4, 1, 5], [6, 7, 8]]"
  by code_simp

section \<open>The genetic search\<close>

subsection \<open>Fitness\<close>

lemma for_each_pure:
  assumes "\<And>x s. x \<in> set xs \<Longrightarrow> body x s = Inr (f x s)"
  shows "for_each xs body s = Inr (fold f xs s)"
  using assms by (induction xs arbitrary: s) simp_all

lemma fetch_range:
  "i \<in> set [0, 1, 2] \<Longrightarrow> j \<in> set [0, 1, 2] \<Longrightarrow> fetch m i j = Inr (arrangement m ! nat i ! nat j)"
  by (auto simp: fetch_def MATRIX_SIZE_def)

lemma positional_adaptivity_eq:
  "positional_adaptivity m f = Inr (pos_value (arrangement m) (arrangement f))"
  unfolding positional_adaptivity_def pos_value_def MATRIX_SIZE_def py_range_3
proof (rule for_each_pure)
  fix i :: int and s1 :: int assume i: "i \<in> set [0, 1, 2]"
  show "for_each [0, 1, 2] (\<lambda>j val. ebind (fetch m i j) (\<lambda>element.
           for_each [0, 1, 2] (\<lambda>ma val. for_each [0, 1, 2] (\<lambda>n val. ebind (fetch f ma n) (\<lambda>number.
             if number = element then Inr (val - (\<bar>i - ma\<bar> + \<bar>j - n\<bar>)\<^sup>2) else Inr val)) val) val)) s1 =
        Inr (fold (\<lambda>j. fold (\<lambda>ma. fold (\<lambda>n val.
             if arrangement f ! nat ma ! nat n = arrangement m ! nat i ! nat j
             then val - (\<bar>i - ma\<bar> + \<bar>j - n\<bar>)\<^sup>2 else val) [0, 1, 2]) [0, 1, 2]) [0, 1, 2] s1)"
  proof (rule for_each_pure)
    fix j :: int and s2 :: int assume j: "j \<in> set [0, 1, 2]"
    have "for_each [0, 1, 2] (\<lambda>ma val. for_each [0, 1, 2] (\<lambda>n val. ebind (fetch f ma n) (\<lambda>number.
             if number = arrangement m ! nat i ! nat j then Inr (val - (\<bar>i - ma\<bar> + \<bar>j - n\<bar>)\<^sup>2) else Inr val)) val) s2 =
        Inr (fold (\<lambda>ma. fold (\<lambda>n val.
             if arrangement f ! nat ma ! nat n = arrangement m ! nat i ! nat j
             then val - (\<bar>i - ma\<bar> + \<bar>j - n\<bar>)\<^sup>2 else val) [0, 1, 2]) [0, 1, 2] s2)"
    proof (rule for_each_pure)
      fix ma :: int and s3 :: int assume ma: "ma \<in> set [0, 1, 2]"
      show "for_each [0, 1, 2] (\<lambda>n val. ebind (fetch f ma n) (\<lambda>number.
             if number = arrangement m ! nat i ! nat j then Inr (val - (\<bar>i - ma\<bar> + \<bar>j - n\<bar>)\<^sup>2) else Inr val)) s3 =
        Inr (fold (\<lambda>n val.
             if arrangement f ! nat ma ! nat n = arrangement m ! nat i ! nat j
             then val - (\<bar>i - ma\<bar> + \<bar>j - n\<bar>)\<^sup>2 else val) [0, 1, 2] s3)"
      proof (rule for_each_pure)
        fix n :: int and s4 :: int assume n: "n \<in> set [0, 1, 2]"
        show "ebind (fetch f ma n) (\<lambda>number.
             if number = arrangement m ! nat i ! nat j then Inr (s4 - (\<bar>i - ma\<bar> + \<bar>j - n\<bar>)\<^sup>2) else Inr s4) =
          Inr (if arrangement f ! nat ma ! nat n = arrangement m ! nat i ! nat j
             then s4 - (\<bar>i - ma\<bar> + \<bar>j - n\<bar>)\<^sup>2 else s4)"
          by (simp add: fetch_range[OF ma n])
      qed
    qed
    then show "ebind (fetch m i j) (\<lambda>element.
           for_each [0, 1, 2] (\<lambda>ma val. for_each [0, 1, 2] (\<lambda>n val. ebind (fetch f ma n) (\<lambda>number.
             if number = element then Inr (val - (\<bar>i - ma\<bar> + \<bar>j - n\<bar>)\<^sup>2) else Inr val)) val) s2) =
        Inr (fold (\<lambda>ma. fold (\<lambda>n val.
             if arrangement f ! nat ma ! nat n = arrangement m ! nat i ! nat j
             then val - (\<bar>i - ma\<bar> + \<bar>j - n\<bar>)\<^sup>2 else val) [0, 1, 2]) [0, 1, 2] s2)"
      by (simp add: fetch_range[OF i j])
  qed
qed

lemma fold_decreasing:
  fixes s :: int
  assumes "\<And>x v. f x v \<le> v"
  shows "fold f xs s \<le> s"
proof (induction xs arbitrary: s)
  case Nil
  then show ?case by simp
next
  case (Cons x xs)
  have "fold f xs (f x s) \<le> f x s" by (rule Cons.IH)
  also have "\<dots> \<le> s" by (rule assms)
  finally show ?case by simp
qed

lemma pos_value_nonpos: "pos_value g h \<le> 0"
  unfolding pos_value_def
  by (intro fold_decreasing) simp


subsection \<open>Replaying a genome\<close>

lemma play_only_cases:
  assumes "consistent c"
  shows "play_only c d = Inr None \<or> (\<exists>c'. play_only c d = Inr (Some c') \<and> consistent c')"
  using assms by (cases "legal c d") (simp_all add: play_only_eq moved_consistent)

lemma replay_consistent:
  "consistent c \<Longrightarrow> replay c ds = Some m \<Longrightarrow> consistent m"
proof (induction ds arbitrary: c)
  case Nil
  then show ?case by simp
next
  case (Cons d ds)
  from play_only_cases[OF Cons.prems(1), of d]
  consider (illegal) "play_only c d = Inr None"
    | (legal) c' where "play_only c d = Inr (Some c')" "consistent c'"
    by blast
  then show ?case
  proof cases
    case illegal
    then show ?thesis using Cons.prems(2) by simp
  next
    case (legal c')
    then show ?thesis using Cons.prems(2) Cons.IH by simp
  qed
qed

lemma hits_0: "hits c final ds 0 = Matrix_eq c final"
  by (simp add: hits_def)

lemma hits_Suc:
  "hits c final (d # ds) (Suc k) =
     (case play_only c d of Inr (Some c') \<Rightarrow> hits c' final ds k | _ \<Rightarrow> False)"
  by (simp add: hits_def split: sum.splits option.splits)







lemma adaptivity_loop_illegal:
  assumes "consistent c" "i < length ds" "\<forall>k. 1 \<le> k \<and> k \<le> i \<longrightarrow> \<not> hits c final ds k"
    "replay c (take i ds) = Some m" "play_only m (ds ! i) = Inr None"
  shows "adaptivity_loop final self j c last_candidate ds =
     Inr (self\<lparr>adaptivity := adaptivity self + (j + int i) +
                  pos_value (arrangement m) (arrangement final)\<rparr>)"
  using assms
proof (induction ds arbitrary: c i j last_candidate)
  case Nil
  then show ?case by simp
next
  case (Cons d ds)
  show ?case
  proof (cases i)
    case 0
    then show ?thesis using Cons.prems(4,5) by (simp add: positional_adaptivity_eq)
  next
    case (Suc i')
    from Cons.prems(4) Suc obtain c' where c': "play_only c d = Inr (Some c')"
      "replay c' (take i' ds) = Some m"
      by (auto split: sum.splits option.splits)
    have cc: "consistent c'"
      using play_only_cases[OF Cons.prems(1), of d] c'(1) by auto
    have "\<not> hits c final (d # ds) (Suc 0)" using Cons.prems(3) Suc by simp
    then have ne: "\<not> Matrix_eq c' final" using c'(1) by (simp add: hits_Suc hits_0)
    have nh: "\<forall>k. 1 \<le> k \<and> k \<le> i' \<longrightarrow> \<not> hits c' final ds k"
    proof (intro allI impI)
      fix k assume "1 \<le> k \<and> k \<le> i'"
      then have "\<not> hits c final (d # ds) (Suc k)" using Cons.prems(3) Suc by simp
      then show "\<not> hits c' final ds k" using c'(1) by (simp add: hits_Suc)
    qed
    have "adaptivity_loop final self (j + 1) c' c ds =
        Inr (self\<lparr>adaptivity := adaptivity self + (j + 1 + int i') +
                  pos_value (arrangement m) (arrangement final)\<rparr>)"
      using Cons.prems(2,5) Suc by (intro Cons.IH[OF cc _ nh c'(2)]) simp_all
    then show ?thesis using c'(1) ne Suc by simp
  qed
qed



subsection \<open>Evaluation of a population\<close>



subsection \<open>The example genomes\<close>

lemma example_corner_consistent: "consistent example_corner"
  by (simp add: consistent_def example_corner_def MATRIX_SIZE_def SPACE_VALUE_def upt_rec)











subsection \<open>Evaluation\<close>







subsection \<open>Fitness after an illegal move\<close>

text \<open>
  Claim C5 as stated fails: from \<open>#12 / 345 / 678\<close> the genome \<open>[LEFT]\<close> hits the border at
  index 0, and its fitness is not 0 but \<open>- 6\<close>, the positional score of the state the
  illegal move was tried on.
\<close>

theorem illegal_move_fitness_counterexample:
  "\<not> Matrix_eq (clone example_corner) example_corner_final \<and>
   replay (clone example_corner) (take 0 [LEFT]) = Some (clone example_corner) \<and>
   play_only (clone example_corner) ([LEFT] ! 0) = Inr None \<and>
   calculate_adaptivity \<lparr>gene = [LEFT], adaptivity = 0\<rparr> example_corner example_corner_final =
     Inr \<lparr>gene = [LEFT], adaptivity = - 6\<rparr>"
  by code_simp

text \<open>
  Claim C5, amended.  When the replay of the genome from \<open>initial\<close> plays \<open>i\<close> moves
  without reaching \<open>final\<close> and the move at index \<open>i\<close> is illegal, the fitness is \<open>i\<close> plus the
  positional score (at most 0) of the state reached by those \<open>i\<close> moves, and the genome is
  unchanged.
\<close>

theorem illegal_move_fitness:
  assumes "consistent initial" "i < length (gene ind)"
    "list_all (\<lambda>k. \<not> hits (clone initial) final (gene ind) k) [1..<Suc i]"
    "replay (clone initial) (take i (gene ind)) = Some m"
    "play_only m (gene ind ! i) = Inr None"
  shows "\<exists>p. positional_adaptivity m final = Inr p \<and> p \<le> 0 \<and>
     calculate_adaptivity ind initial final = Inr (ind\<lparr>adaptivity := int i + p\<rparr>)"
proof -
  let ?p = "pos_value (arrangement m) (arrangement final)"
  have nh: "\<forall>k. 1 \<le> k \<and> k \<le> i \<longrightarrow> \<not> hits (clone initial) final (gene ind) k"
    using assms(3) by (auto simp: list_all_iff)
  have "adaptivity_loop final (ind\<lparr>adaptivity := 0\<rparr>) 0 (clone initial) (clone initial) (gene ind) =
      Inr ((ind\<lparr>adaptivity := 0\<rparr>)\<lparr>adaptivity := adaptivity (ind\<lparr>adaptivity := 0\<rparr>) + (0 + int i) + ?p\<rparr>)"
    by (rule adaptivity_loop_illegal[OF clone_consistent[OF assms(1)] assms(2) nh assms(4,5)])
  then have "calculate_adaptivity ind initial final = Inr (ind\<lparr>adaptivity := int i + ?p\<rparr>)"
    by (simp add: calculate_adaptivity_def Let_def)
  then show ?thesis using positional_adaptivity_eq pos_value_nonpos by blast
qed

theorem illegal_move_fitness_witness:
  "consistent example_corner \<and> 1 < length (gene \<lparr>gene = [RIGHT, UP], adaptivity = 7\<rparr>) \<and>
   list_all (\<lambda>k. \<not> hits (clone example_corner) example_corner_final
                     (gene \<lparr>gene = [RIGHT, UP], adaptivity = 7\<rparr>) k) [1..<Suc 1] \<and>
   replay (clone example_corner) (take 1 (gene \<lparr>gene = [RIGHT, UP], adaptivity = 7\<rparr>)) =
     Some (Matrix [[1, - 1, 2], [3, 4, 5], [6, 7, 8]] (Some (0, 1)) (Some (clone example_corner))
             (Some RIGHT)) \<and>
   play_only (Matrix [[1, - 1, 2], [3, 4, 5], [6, 7, 8]] (Some (0, 1)) (Some (clone example_corner))
                (Some RIGHT)) (gene \<lparr>gene = [RIGHT, UP], adaptivity = 7\<rparr> ! 1) = Inr None \<and>
   (\<exists>p. positional_adaptivity
           (Matrix [[1, - 1, 2], [3, 4, 5], [6, 7, 8]] (Some (0, 1)) (Some (clone example_corner))
              (Some RIGHT)) example_corner_final = Inr p \<and> p \<le> 0 \<and>
        calculate_adaptivity \<lparr>gene = [RIGHT, UP], adaptivity = 7\<rparr> example_corner example_corner_final =
          Inr (\<lparr>gene = [RIGHT, UP], adaptivity = 7\<rparr>\<lparr>adaptivity := int 1 + p\<rparr>))"
proof -
  let ?ind = "\<lparr>gene = [RIGHT, UP], adaptivity = 7\<rparr>"
  let ?m = "Matrix [[1, - 1, 2], [3, 4, 5], [6, 7, 8]] (Some (0, 1)) (Some (clone example_corner))
             (Some RIGHT)"
  have 1: "1 < length (gene ?ind)" by simp
  have 2: "list_all (\<lambda>k. \<not> hits (clone example_corner) example_corner_final (gene ?ind) k) [1..<Suc 1]"
    by code_simp
  have 3: "replay (clone example_corner) (take 1 (gene ?ind)) = Some ?m" by code_simp
  have 4: "play_only ?m (gene ?ind ! 1) = Inr None" by code_simp
  show ?thesis
    using illegal_move_fitness [OF example_corner_consistent 1 2 3 4]
      example_corner_consistent 1 2 3 4
    by blast
qed

subsection \<open>Selection\<close>

lemma select_loop_step:
  assumes "population \<noteq> []" "int (length new_population) < POPULATION_SIZE"
  shows "select_loop rnd k population new_population =
     select_loop rnd (k + 2) population (new_population @ [tournament rnd k population])"
proof -
  have "select_loop rnd k population new_population =
     (case random_choice rnd k population of
              Inl e \<Rightarrow> Inl e
            | Inr (a, k1) \<Rightarrow>
                (case random_choice rnd k1 population of
                   Inl e \<Rightarrow> Inl e
                 | Inr (b, k2) \<Rightarrow>
                     select_loop rnd k2 population
                       (new_population @
                          [if adaptivity a \<ge> adaptivity b then Individual_clone a
                           else Individual_clone b])))"
    using assms(2) by (subst select_loop.simps) simp
  also have "\<dots> = select_loop rnd (k + 2) population (new_population @ [tournament rnd k population])"
    using assms(1) by (simp add: random_choice_def tournament_def Let_def)
  finally show ?thesis .
qed

lemma select_loop_eq:
  assumes "population \<noteq> []" "m = nat POPULATION_SIZE - length new_population"
  shows "select_loop rnd k population new_population =
     Inr (new_population @ map (\<lambda>n. tournament rnd (k + 2 * n) population) [0..<m], k + 2 * m)"
  using assms(2)
proof (induction m arbitrary: k new_population)
  case 0
  then have "\<not> int (length new_population) < POPULATION_SIZE" by (simp add: POPULATION_SIZE_def)
  then show ?case by (subst select_loop.simps) simp
next
  case (Suc m)
  then have lt: "int (length new_population) < POPULATION_SIZE" by (simp add: POPULATION_SIZE_def)
  let ?t = "tournament rnd k population"
  have m: "m = nat POPULATION_SIZE - length (new_population @ [?t])" using Suc.prems by simp
  have ih: "select_loop rnd (k + 2) population (new_population @ [?t]) =
      Inr ((new_population @ [?t]) @ map (\<lambda>n. tournament rnd (k + 2 + 2 * n) population) [0..<m],
           k + 2 + 2 * m)"
    by (rule Suc.IH[OF m])
  have shift: "map (\<lambda>n. tournament rnd (k + 2 * n) population) [0..<Suc m] =
      ?t # map (\<lambda>n. tournament rnd (k + 2 + 2 * n) population) [0..<m]"
    by (simp add: map_upt_Suc del: upt_Suc)
  show ?case
    unfolding select_loop_step[OF assms(1) lt] ih shift by simp
qed

lemma example_population_draws:
  "random_choice example_rnd 0 example_population = Inr (\<lparr>gene = [LEFT], adaptivity = 0\<rparr>, 1)"
  "random_choice example_rnd 1 example_population = Inr (\<lparr>gene = [RIGHT], adaptivity = 0\<rparr>, 2)"
  by (simp_all add: random_choice_def example_rnd_def example_population_def)

lemma population_size_pos: "0 < nat POPULATION_SIZE"
  by (simp add: POPULATION_SIZE_def)

text \<open>
  Claim C7 as stated fails: when the two individuals drawn have equal fitness, the clone
  appended is that of the first one.  In the example population the first round draws the
  individuals at the indices 0 and 1, of equal fitness and different genomes.
\<close>

theorem tournament_selection_counterexample:
  "random_choice example_rnd 0 example_population = Inr (\<lparr>gene = [LEFT], adaptivity = 0\<rparr>, 1) \<and>
   random_choice example_rnd 1 example_population = Inr (\<lparr>gene = [RIGHT], adaptivity = 0\<rparr>, 2) \<and>
   (\<exists>new_population k'.
      select example_rnd 0 example_population = Inr (new_population, k') \<and>
      new_population ! 0 = Individual_clone \<lparr>gene = [LEFT], adaptivity = 0\<rparr> \<and>
      new_population ! 0 \<noteq> Individual_clone \<lparr>gene = [RIGHT], adaptivity = 0\<rparr>)"
proof -
  have ne: "example_population \<noteq> []" by (simp add: example_population_def)
  let ?new = "map (\<lambda>n. tournament example_rnd (0 + 2 * n) example_population) [0..<nat POPULATION_SIZE]"
  have s: "select example_rnd 0 example_population = Inr (?new, 0 + 2 * nat POPULATION_SIZE)"
    using select_loop_eq[OF ne, of "nat POPULATION_SIZE" "[]" example_rnd 0]
    by (simp add: select_def)
  have "?new ! 0 = tournament example_rnd 0 example_population"
    using population_size_pos by (simp add: nth_map nth_upt del: upt_Suc)
  also have "\<dots> = Individual_clone \<lparr>gene = [LEFT], adaptivity = 0\<rparr>"
    by (simp add: tournament_def Let_def example_rnd_def example_population_def)
  finally have 0: "?new ! 0 = Individual_clone \<lparr>gene = [LEFT], adaptivity = 0\<rparr>" .
  have "Individual_clone \<lparr>gene = [LEFT], adaptivity = 0\<rparr> \<noteq> Individual_clone \<lparr>gene = [RIGHT], adaptivity = 0\<rparr>"
    by (simp add: Individual_clone_def)
  then show ?thesis using s 0 example_population_draws by auto
qed

text \<open>
  Claim C7, amended.  Selection builds a population of exactly \<open>POPULATION_SIZE\<close>
  individuals, the size of the old population; its \<open>n\<close>-th individual is the clone of the
  fitter of the two individuals \<open>a\<close> and \<open>b\<close> drawn in that order in round \<open>n\<close>, and of \<open>a\<close>,
  the first one, when their fitness is equal.
\<close>

theorem tournament_selection:
  assumes "population \<noteq> []"
  shows "\<exists>new_population k'.
     select rnd k population = Inr (new_population, k') \<and>
     int (length new_population) = POPULATION_SIZE \<and>
     (int (length population) = POPULATION_SIZE \<longrightarrow> length new_population = length population) \<and>
     (\<forall>n<length new_population. \<exists>a b.
        random_choice rnd (k + 2 * n) population = Inr (a, k + 2 * n + 1) \<and>
        random_choice rnd (k + 2 * n + 1) population = Inr (b, k + 2 * n + 2) \<and>
        new_population ! n =
          (if adaptivity a > adaptivity b then Individual_clone a
           else if adaptivity a < adaptivity b then Individual_clone b
           else Individual_clone a))"
proof -
  let ?new = "map (\<lambda>n. tournament rnd (k + 2 * n) population) [0..<nat POPULATION_SIZE]"
  have s: "select rnd k population = Inr (?new, k + 2 * nat POPULATION_SIZE)"
    using select_loop_eq[OF assms, of "nat POPULATION_SIZE" "[]" rnd k]
    by (simp add: select_def)
  have len: "int (length ?new) = POPULATION_SIZE" by (simp add: POPULATION_SIZE_def)
  have nth: "\<exists>a b.
        random_choice rnd (k + 2 * n) population = Inr (a, k + 2 * n + 1) \<and>
        random_choice rnd (k + 2 * n + 1) population = Inr (b, k + 2 * n + 2) \<and>
        ?new ! n =
          (if adaptivity a > adaptivity b then Individual_clone a
           else if adaptivity a < adaptivity b then Individual_clone b
           else Individual_clone a)" if "n < length ?new" for n
  proof -
    have "?new ! n = tournament rnd (k + 2 * n) population"
      using that by (simp add: nth_map nth_upt del: upt_Suc)
    then show ?thesis using assms by (auto simp: tournament_def Let_def random_choice_def)
  qed
  show ?thesis using s len nth by (metis nat_int)
qed

theorem tournament_selection_witness:
  "example_population \<noteq> [] \<and>
   (\<exists>new_population k'.
     select example_rnd 0 example_population = Inr (new_population, k') \<and>
     int (length new_population) = POPULATION_SIZE \<and>
     length new_population = length example_population \<and>
     new_population ! 0 = Individual_clone \<lparr>gene = [LEFT], adaptivity = 0\<rparr>)"
proof -
  have ne: "example_population \<noteq> []" by (simp add: example_population_def)
  have sz: "int (length example_population) = POPULATION_SIZE"
    by (simp add: example_population_def POPULATION_SIZE_def)
  from tournament_selection [OF ne, of example_rnd 0] obtain new_population k' where
    s: "select example_rnd 0 example_population = Inr (new_population, k')"
      "int (length new_population) = POPULATION_SIZE"
      "int (length example_population) = POPULATION_SIZE \<longrightarrow>
         length new_population = length example_population"
    and n: "\<forall>n<length new_population. \<exists>a b.
        random_choice example_rnd (0 + 2 * n) example_population = Inr (a, 0 + 2 * n + 1) \<and>
        random_choice example_rnd (0 + 2 * n + 1) example_population = Inr (b, 0 + 2 * n + 2) \<and>
        new_population ! n =
          (if adaptivity a > adaptivity b then Individual_clone a
           else if adaptivity a < adaptivity b then Individual_clone b
           else Individual_clone a)"
    by auto
  have "0 < length new_population" using s(2) by (auto simp: POPULATION_SIZE_def)
  with n have "\<exists>a b.
        random_choice example_rnd (0 + 2 * 0) example_population = Inr (a, 0 + 2 * 0 + 1) \<and>
        random_choice example_rnd (0 + 2 * 0 + 1) example_population = Inr (b, 0 + 2 * 0 + 2) \<and>
        new_population ! 0 =
          (if adaptivity a > adaptivity b then Individual_clone a
           else if adaptivity a < adaptivity b then Individual_clone b
           else Individual_clone a)"
    by blast
  then have "new_population ! 0 = Individual_clone \<lparr>gene = [LEFT], adaptivity = 0\<rparr>"
    using example_population_draws by auto
  then show ?thesis using s sz ne by blast
qed

subsection \<open>Mutation\<close>

lemma resample_one_gene:
  assumes "resample rnd k depth_limit pos_a pos_b = Some y"
  shows "\<not> (depth_limit = 1 \<and> pos_a = 0 \<and> pos_b = 0)"
proof (rule resample.raw_induct
    [where P = "\<lambda>rnd k depth_limit pos_a pos_b y. \<not> (depth_limit = 1 \<and> pos_a = 0 \<and> pos_b = 0)",
     OF _ assms])
  fix f :: "rng \<Rightarrow> nat \<Rightarrow> int \<Rightarrow> int \<Rightarrow> int \<Rightarrow> (error + int \<times> nat) option"
    and rnd k depth_limit pos_a pos_b y
  assume ih: "\<And>rnd k depth_limit pos_a pos_b y.
      f rnd k depth_limit pos_a pos_b = Some y \<Longrightarrow> \<not> (depth_limit = 1 \<and> pos_a = 0 \<and> pos_b = 0)"
    and eq: "(if pos_b = pos_a
      then case random_randrange rnd k depth_limit of Inl e \<Rightarrow> Some (Inl e)
           | Inr (pos_b', k') \<Rightarrow> f rnd k' depth_limit pos_a pos_b'
      else Some (Inr (pos_b, k))) = Some y"
  show "\<not> (depth_limit = 1 \<and> pos_a = 0 \<and> pos_b = 0)"
  proof
    assume a: "depth_limit = 1 \<and> pos_a = 0 \<and> pos_b = 0"
    then have "f rnd (k + 1) 1 0 0 = Some y"
      using eq by (simp add: random_randrange_def)
    from ih[OF this] show False by simp
  qed
qed

lemma resample_diverges: "resample rnd k 1 0 0 = None"
  using resample_one_gene[of rnd k 1 0 0] by (cases "resample rnd k 1 0 0") auto

lemma resample_fair:
  assumes "0 < depth_limit" "int (rnd (k + n)) mod depth_limit \<noteq> pos_a"
    "0 \<le> pos_b" "pos_b < depth_limit"
  shows "\<exists>pos_b' k'. resample rnd k depth_limit pos_a pos_b = Some (Inr (pos_b', k')) \<and>
     pos_b' \<noteq> pos_a \<and> 0 \<le> pos_b' \<and> pos_b' < depth_limit"
  using assms(2,3,4)
proof (induction n arbitrary: k pos_b)
  case 0
  show ?case
  proof (cases "pos_b = pos_a")
    case False
    then show ?thesis using 0 by (subst resample.simps) simp
  next
    case True
    let ?v = "int (rnd k) mod depth_limit"
    have v: "?v \<noteq> pos_a" "0 \<le> ?v" "?v < depth_limit" using 0 assms(1) by simp_all
    have "resample rnd k depth_limit pos_a pos_b = resample rnd (k + 1) depth_limit pos_a ?v"
      using True assms(1) by (subst resample.simps) (simp add: random_randrange_def)
    also have "\<dots> = Some (Inr (?v, k + 1))"
      using v(1) by (subst resample.simps) simp
    finally show ?thesis using v by blast
  qed
next
  case (Suc n)
  show ?case
  proof (cases "pos_b = pos_a")
    case False
    then show ?thesis using Suc.prems by (subst resample.simps) simp
  next
    case True
    let ?v = "int (rnd k) mod depth_limit"
    have v: "0 \<le> ?v" "?v < depth_limit" using assms(1) by simp_all
    have step: "resample rnd k depth_limit pos_a pos_b = resample rnd (k + 1) depth_limit pos_a ?v"
      using True assms(1) by (subst resample.simps) (simp add: random_randrange_def)
    have "int (rnd (k + 1 + n)) mod depth_limit \<noteq> pos_a" using Suc.prems(1) by simp
    from Suc.IH[OF this v] show ?thesis unfolding step .
  qed
qed

lemma mutate_individual_idle:
  "\<not> fires rnd k \<Longrightarrow> mutate_individual rnd k depth_limit individual = Some (Inr (individual, k + 1))"
  by (simp add: mutate_individual_def fires_def random_random_def)

lemma mutate_individual_one_gene:
  "fires rnd k \<Longrightarrow> mutate_individual rnd k 1 individual = None"
  by (simp add: mutate_individual_def fires_def random_random_def random_randrange_def
        resample_diverges)

lemma mutate_individual_no_gene:
  "fires rnd k \<Longrightarrow> depth_limit \<le> 0 \<Longrightarrow>
     mutate_individual rnd k depth_limit individual = Some (Inl ValueError)"
  by (simp add: mutate_individual_def fires_def random_random_def random_randrange_def)

lemma mutate_individual_fair:
  assumes "2 \<le> depth_limit" "fair rnd depth_limit" "int (length (gene individual)) = depth_limit"
  shows "\<exists>individual' k'. mutate_individual rnd k depth_limit individual = Some (Inr (individual', k')) \<and>
     length (gene individual') = length (gene individual)"
proof (cases "fires rnd k")
  case False
  then show ?thesis by (simp add: mutate_individual_idle)
next
  case True
  let ?a = "int (rnd (k + 1)) mod depth_limit" and ?b = "int (rnd (k + 2)) mod depth_limit"
  have pos: "0 < depth_limit" using assms(1) by simp
  have a: "0 \<le> ?a" "?a < depth_limit" and b: "0 \<le> ?b" "?b < depth_limit" using pos by simp_all
  from assms(2) obtain n where n: "int (rnd (k + 3 + n)) mod depth_limit \<noteq> ?a"
    unfolding fair_def by blast
  from resample_fair[where rnd = rnd and k = "k + 3" and n = n and pos_a = ?a and pos_b = ?b, OF pos n b]
  obtain pos_b' k' where
    r: "resample rnd (k + 3) depth_limit ?a ?b = Some (Inr (pos_b', k'))"
    and p: "pos_b' \<noteq> ?a" "0 \<le> pos_b'" "pos_b' < depth_limit"
    by blast
  have k3: "Suc (Suc (Suc k)) = k + 3" by simp
  have "mutate_individual rnd k depth_limit individual =
      Some (ebind (swap_genes individual ?a pos_b') (\<lambda>individual'. Inr (individual', k')))"
    using True pos r
    by (simp add: mutate_individual_def fires_def random_random_def random_randrange_def k3)
  moreover have "swap_genes individual ?a pos_b' =
      Inr (individual\<lparr>gene := ((gene individual)[nat ?a := gene individual ! nat pos_b'])
                                  [nat pos_b' := gene individual ! nat ?a]\<rparr>)"
    using a p assms(3) by (simp add: swap_genes_def Let_def)
  ultimately show ?thesis by simp
qed

lemma mutate_one_gene:
  "\<exists>j<length population. fires rnd (k + j) \<Longrightarrow> mutate rnd k 1 population = None"
proof (induction population arbitrary: k)
  case Nil
  then show ?case by simp
next
  case (Cons individual population)
  show ?case
  proof (cases "fires rnd k")
    case True
    then show ?thesis by (simp add: mutate_individual_one_gene)
  next
    case False
    from Cons.prems obtain j where j: "j < length (individual # population)" "fires rnd (k + j)"
      by blast
    with False obtain j' where "j = Suc j'" by (cases j) auto
    with j have "\<exists>j<length population. fires rnd (k + 1 + j)" by auto
    from Cons.IH[OF this] show ?thesis using False by (simp add: mutate_individual_idle)
  qed
qed

lemma mutate_no_gene:
  "\<exists>j<length population. fires rnd (k + j) \<Longrightarrow> depth_limit \<le> 0 \<Longrightarrow>
     mutate rnd k depth_limit population = Some (Inl ValueError)"
proof (induction population arbitrary: k)
  case Nil
  then show ?case by simp
next
  case (Cons individual population)
  show ?case
  proof (cases "fires rnd k")
    case True
    then show ?thesis using Cons.prems(2) by (simp add: mutate_individual_no_gene)
  next
    case False
    from Cons.prems obtain j where j: "j < length (individual # population)" "fires rnd (k + j)"
      by blast
    with False obtain j' where "j = Suc j'" by (cases j) auto
    with j have "\<exists>j<length population. fires rnd (k + 1 + j)" by auto
    from Cons.IH[OF this Cons.prems(2)] show ?thesis using False by (simp add: mutate_individual_idle)
  qed
qed

lemma mutate_fair:
  assumes "2 \<le> depth_limit" "fair rnd depth_limit"
  shows "\<forall>individual\<in>set population. int (length (gene individual)) = depth_limit \<Longrightarrow>
     \<exists>population' k'. mutate rnd k depth_limit population = Some (Inr (population', k')) \<and>
        length population' = length population"
proof (induction population arbitrary: k)
  case Nil
  then show ?case by simp
next
  case (Cons individual population)
  from mutate_individual_fair[OF assms, of individual k] Cons.prems obtain individual' k1 where
    1: "mutate_individual rnd k depth_limit individual = Some (Inr (individual', k1))" by auto
  from Cons.IH[of k1] Cons.prems obtain population' k2 where
    2: "mutate rnd k1 depth_limit population = Some (Inr (population', k2))"
      "length population' = length population" by auto
  show ?case using 1 2 by simp
qed


lemma mutate_idle:
  "\<not> (\<exists>j<length population. fires rnd (k + j)) \<Longrightarrow>
     mutate rnd k depth_limit population = Some (Inr (population, k + length population))"
proof (induction population arbitrary: k)
  case Nil
  then show ?case by simp
next
  case (Cons individual population)
  have nf: "\<not> fires rnd k" using Cons.prems by force
  have "\<not> (\<exists>j<length population. fires rnd (k + 1 + j))"
  proof
    assume "\<exists>j<length population. fires rnd (k + 1 + j)"
    then obtain j where "j < length population" "fires rnd (k + Suc j)" by auto
    then have "Suc j < length (individual # population) \<and> fires rnd (k + Suc j)" by simp
    then show False using Cons.prems by blast
  qed
  from Cons.IH[OF this] show ?case using nf by (simp add: mutate_individual_idle)
qed

lemma fires_somewhere:
  "list_ex (\<lambda>j. fires rnd (k + j)) [0..<length population] =
     (\<exists>j<length population. fires rnd (k + j))"
  by (auto simp: list_ex_iff)

lemma example_rnd_fair: "fair example_rnd 2"
  unfolding fair_def example_rnd_def
proof (intro allI)
  fix k :: nat and pos :: int
  show "\<exists>n. int (k + n) mod 2 \<noteq> pos"
  proof (cases "int (k + 0) mod 2 = pos")
    case False
    then show ?thesis by blast
  next
    case True
    have "int (k + 1) mod 2 \<noteq> int (k + 0) mod 2" by presburger
    then show ?thesis using True by metis
  qed
qed

text \<open>
  Claim C10.  With a depth limit of 1, as soon as the mutation fires for some individual
  the loop that draws a second gene position other than the first never ends, and with
  a depth limit of 0 or less the first draw raises \<open>ValueError\<close>.  Mutation returns when it
  fires for nobody, and, with a depth limit of at least 2 and genomes of that length,
  whenever the generator eventually draws a different position.
\<close>

theorem mutation_needs_two_genes:
  "(depth_limit = 1 \<and> list_ex (\<lambda>j. fires rnd (k + j)) [0..<length population] \<longrightarrow>
      mutate rnd k depth_limit population = None) \<and>
   (depth_limit \<le> 0 \<and> list_ex (\<lambda>j. fires rnd (k + j)) [0..<length population] \<longrightarrow>
      mutate rnd k depth_limit population = Some (Inl ValueError)) \<and>
   (\<not> list_ex (\<lambda>j. fires rnd (k + j)) [0..<length population] \<longrightarrow>
      mutate rnd k depth_limit population = Some (Inr (population, k + length population))) \<and>
   (2 \<le> depth_limit \<and> fair rnd depth_limit \<and>
    list_all (\<lambda>individual. int (length (gene individual)) = depth_limit) population \<longrightarrow>
      (\<exists>population' k'. mutate rnd k depth_limit population = Some (Inr (population', k')) \<and>
         length population' = length population))"
  unfolding fires_somewhere
  using mutate_one_gene[of population rnd k] mutate_no_gene[of population rnd k depth_limit]
    mutate_idle[of population rnd k depth_limit] mutate_fair[of depth_limit rnd population k]
  by (auto simp: list_all_iff)

theorem mutation_needs_two_genes_witness:
  "list_ex (\<lambda>j. fires (\<lambda>k. 0) (0 + j)) [0..<length [\<lparr>gene = [LEFT], adaptivity = 0\<rparr>]] \<and>
   mutate (\<lambda>k. 0) 0 1 [\<lparr>gene = [LEFT], adaptivity = 0\<rparr>] = None \<and>
   mutate (\<lambda>k. 0) 0 0 [\<lparr>gene = [LEFT], adaptivity = 0\<rparr>] = Some (Inl ValueError) \<and>
   \<not> list_ex (\<lambda>j. fires (\<lambda>k. 1000000000000000) (0 + j)) [0..<length [\<lparr>gene = [LEFT], adaptivity = 0\<rparr>]] \<and>
   mutate (\<lambda>k. 1000000000000000) 0 1 [\<lparr>gene = [LEFT], adaptivity = 0\<rparr>] =
     Some (Inr ([\<lparr>gene = [LEFT], adaptivity = 0\<rparr>], 0 + length [\<lparr>gene = [LEFT], adaptivity = 0\<rparr>])) \<and>
   fair example_rnd 2 \<and>
   list_all (\<lambda>individual. int (length (gene individual)) = 2) [\<lparr>gene = [LEFT, RIGHT], adaptivity = 0\<rparr>] \<and>
   (\<exists>population' k'. mutate example_rnd 0 2 [\<lparr>gene = [LEFT, RIGHT], adaptivity = 0\<rparr>] =
        Some (Inr (population', k')) \<and>
      length population' = length [\<lparr>gene = [LEFT, RIGHT], adaptivity = 0\<rparr>])"
proof -
  have f: "list_ex (\<lambda>j. fires (\<lambda>k. 0) (0 + j)) [0..<length [\<lparr>gene = [LEFT], adaptivity = 0\<rparr>]]"
    by (simp add: fires_def random_random_def below_MUTATE_POSSIBILITY_def)
  have n: "\<not> list_ex (\<lambda>j. fires (\<lambda>k. 1000000000000000) (0 + j))
      [0..<length [\<lparr>gene = [LEFT], adaptivity = 0\<rparr>]]"
    by (simp add: fires_def random_random_def below_MUTATE_POSSIBILITY_def)
  have l: "list_all (\<lambda>individual. int (length (gene individual)) = 2)
      [\<lparr>gene = [LEFT, RIGHT], adaptivity = 0\<rparr>]"
    by simp
  show ?thesis
    using mutation_needs_two_genes [of 1 "\<lambda>k. 0" 0 "[\<lparr>gene = [LEFT], adaptivity = 0\<rparr>]"]
      mutation_needs_two_genes [of 0 "\<lambda>k. 0" 0 "[\<lparr>gene = [LEFT], adaptivity = 0\<rparr>]"]
      mutation_needs_two_genes [of 1 "\<lambda>k. 1000000000000000" 0 "[\<lparr>gene = [LEFT], adaptivity = 0\<rparr>]"]
      mutation_needs_two_genes [of 2 example_rnd 0 "[\<lparr>gene = [LEFT, RIGHT], adaptivity = 0\<rparr>]"]
      f n l example_rnd_fair
    by simp
qed

section \<open>The searches\<close>

subsection \<open>Nodes and their paths\<close>

lemma replay_snoc:
  "replay r (ds @ [d]) =
     (case replay r ds of None \<Rightarrow> None
      | Some n \<Rightarrow> (case play_only n d of Inr (Some n') \<Rightarrow> Some n' | _ \<Rightarrow> None))"
  by (induction ds arbitrary: r) (auto split: sum.splits option.splits)

lemma replay_snoc_moved:
  assumes "consistent r" "replay r ds = Some n" "legal n d"
  shows "replay r (ds @ [d]) = Some (moved n d)"
  using assms replay_consistent[OF assms(1,2)] by (simp add: replay_snoc play_only_eq)

lemma parents_moved: "consistent n \<Longrightarrow> parents (moved n d) = n # parents n"
  by (cases "moved n d") (auto simp: moved_def consistent_iff Let_def)

lemma replay_parents_length:
  assumes "consistent r" "replay r ds = Some n"
  shows "length (parents n) = length ds + length (parents r)"
  using assms(2)
proof (induction ds arbitrary: n rule: rev_induct)
  case Nil
  then show ?case by simp
next
  case (snoc d ds)
  from snoc.prems obtain n' where n': "replay r ds = Some n'" "play_only n' d = Inr (Some n)"
    by (auto simp: replay_snoc split: option.splits sum.splits)
  have c: "consistent n'" using replay_consistent[OF assms(1) n'(1)] .
  have "n = moved n' d" using n'(2) c by (auto simp: play_only_eq split: if_splits)
  then show ?case using snoc.IH[OF n'(1)] parents_moved[OF c] by simp
qed

lemma steps_to_root_moved:
  assumes "consistent n" "legal n d" "steps_to_root n = Inr steps"
  shows "\<exists>st. SolutionStep_init n (moved n d) = Inr st \<and> target st = clone (moved n d) \<and>
     steps_to_root (moved n d) = Inr (st # steps)"
proof -
  from SolutionStep_moved[OF assms(1,2)] obtain st where
    st: "SolutionStep_init n (moved n d) = Inr st" "target st = clone (moved n d)" by auto
  obtain a s l where m: "moved n d = Matrix a s (Some n) l"
    using assms(1) by (auto simp: moved_def consistent_iff Let_def)
  have "steps_to_root (Matrix a s (Some n) l) = Inr (st # steps)"
    using st(1) assms(3) unfolding m by simp
  then show ?thesis using st m by simp
qed

lemma steps_to_root_replay:
  assumes "consistent r" "parent r = None" "replay r ds = Some n"
  shows "\<exists>steps. steps_to_root n = Inr steps \<and> length steps = length ds \<and>
     (ds \<noteq> [] \<longrightarrow> target (hd steps) = clone n)"
  using assms(3)
proof (induction ds arbitrary: n rule: rev_induct)
  case Nil
  then have "n = r" by simp
  moreover have "steps_to_root r = Inr []" using assms(2) by (cases r) auto
  ultimately show ?case by simp
next
  case (snoc d ds)
  from snoc.prems obtain n' where n': "replay r ds = Some n'" "play_only n' d = Inr (Some n)"
    by (auto simp: replay_snoc split: option.splits sum.splits)
  have c: "consistent n'" using replay_consistent[OF assms(1) n'(1)] .
  have l: "legal n' d" "n = moved n' d" using n'(2) c by (auto simp: play_only_eq split: if_splits)
  from snoc.IH[OF n'(1)] obtain steps where s: "steps_to_root n' = Inr steps" "length steps = length ds"
    by blast
  from steps_to_root_moved[OF c l(1) s(1)] l(2) s(2) show ?case by auto
qed

lemma consistent_same_blank:
  assumes "consistent a" "consistent b" "Matrix_eq a b"
  shows "space_position a = space_position b"
proof -
  from assms(1) obtain r c where a: "space_position a = Some (int r, int c)" "r < 3" "c < 3"
    "arrangement a ! r ! c = SPACE_VALUE" by (auto simp: consistent_iff)
  from assms(2) obtain r' c' where b: "space_position b = Some (int r', int c')"
    "\<forall>i<3. \<forall>j<3. (arrangement b ! i ! j = SPACE_VALUE) = (i = r' \<and> j = c')"
    by (auto simp: consistent_iff)
  have "arrangement b ! r ! c = SPACE_VALUE" using a(4) assms(3) by (simp add: Matrix_eq_def)
  then have "r = r' \<and> c = c'" using b(2) a(2,3) by blast
  then show ?thesis using a(1) b(1) by simp
qed

lemma moved_same_grid:
  assumes "consistent a" "consistent b" "Matrix_eq a b"
  shows "legal a d = legal b d" "Matrix_eq (moved a d) (moved b d)"
  using consistent_same_blank[OF assms] assms(3)
  by (auto simp: legal_def moved_def Matrix_eq_def Let_def split: option.splits)

lemma expand_nodes:
  assumes "c \<in> set (expand n)"
  shows "\<exists>d. legal n d \<and> c = moved n d \<and> \<not> Matrix_in c (parents n)"
  using assms by (auto simp: expand_def)

lemma expand_eq:
  assumes "consistent n"
  shows "play n None = Inr cs \<Longrightarrow>
     filter (\<lambda>c. \<not> Matrix_in c (parents n)) cs = expand n"
  using play_eq[OF assms, of None] by (auto simp: expand_def DIRECTIONS_def)

lemma play_total: "consistent n \<Longrightarrow> \<exists>cs. play n None = Inr cs"
  by (simp add: play_eq)

subsection \<open>The levels of the breadth-first search\<close>

lemma level_nodes:
  assumes "consistent r"
  shows "n \<in> set (level r k) \<Longrightarrow> \<exists>ds. length ds = k \<and> replay r ds = Some n"
proof (induction k arbitrary: n)
  case 0
  then show ?case by simp
next
  case (Suc k)
  from Suc.prems obtain n' where n': "n' \<in> set (level r k)" "n \<in> set (expand n')" by auto
  from Suc.IH[OF n'(1)] obtain ds where ds: "length ds = k" "replay r ds = Some n'" by blast
  from expand_nodes[OF n'(2)] obtain d where d: "legal n' d" "n = moved n' d" by blast
  have "replay r (ds @ [d]) = Some n" using replay_snoc_moved[OF assms ds(2) d(1)] d(2) by simp
  then show ?case using ds(1) by (intro exI[of _ "ds @ [d]"]) simp
qed

lemma level_consistent:
  "consistent r \<Longrightarrow> n \<in> set (level r k) \<Longrightarrow> consistent n"
  using level_nodes replay_consistent by blast

lemma level_ancestors:
  assumes "consistent r" "parent r = None"
  shows "n \<in> set (level r k) \<Longrightarrow> a \<in> set (parents n) \<Longrightarrow> \<exists>i<k. a \<in> set (level r i)"
proof (induction k arbitrary: n a)
  case 0
  then have "n = r" by simp
  moreover have "parents r = []" using assms(2) by (cases r) auto
  ultimately show ?case using 0 by simp
next
  case (Suc k)
  from Suc.prems(1) obtain n' where n': "n' \<in> set (level r k)" "n \<in> set (expand n')" by auto
  from expand_nodes[OF n'(2)] obtain d where d: "n = moved n' d" by blast
  have "parents n = n' # parents n'"
    using parents_moved[OF level_consistent[OF assms(1) n'(1)]] d by simp
  with Suc.prems(2) consider "a = n'" | "a \<in> set (parents n')" by auto
  then show ?case
  proof cases
    case 1
    then show ?thesis using n'(1) by blast
  next
    case 2
    from Suc.IH[OF n'(1) 2] show ?thesis using less_Suc_eq by blast
  qed
qed

lemma level_complete:
  assumes "consistent r" "parent r = None"
  shows "replay r ds = Some m \<Longrightarrow> \<exists>j\<le>length ds. \<exists>t\<in>set (level r j). Matrix_eq t m"
proof (induction ds arbitrary: m rule: rev_induct)
  case Nil
  then show ?case by (simp add: Matrix_eq_def)
next
  case (snoc d ds)
  from snoc.prems obtain m' where m': "replay r ds = Some m'" "play_only m' d = Inr (Some m)"
    by (auto simp: replay_snoc split: option.splits sum.splits)
  have cm: "consistent m'" using replay_consistent[OF assms(1) m'(1)] .
  have l: "legal m' d" "m = moved m' d" using m'(2) cm by (auto simp: play_only_eq split: if_splits)
  from snoc.IH[OF m'(1)] obtain j t where t: "j \<le> length ds" "t \<in> set (level r j)" "Matrix_eq t m'"
    by blast
  have ct: "consistent t" using level_consistent[OF assms(1) t(2)] .
  have lt: "legal t d" and eq: "Matrix_eq (moved t d) m"
    using moved_same_grid[OF ct cm t(3), of d] l by simp_all
  show ?case
  proof (cases "Matrix_in (moved t d) (parents t)")
    case False
    then have "moved t d \<in> set (expand t)"
      using lt by (cases d) (auto simp: expand_def DIRECTIONS_def)
    then have "moved t d \<in> set (level r (Suc j))" using t(2) by auto
    then show ?thesis using t(1) eq by (intro exI[of _ "Suc j"]) auto
  next
    case True
    then obtain a where a: "a \<in> set (parents t)" "Matrix_eq (moved t d) a"
      by (auto simp: Matrix_in_def list_ex_iff)
    from level_ancestors[OF assms t(2) a(1)] obtain i where i: "i < j" "a \<in> set (level r i)" by blast
    have "Matrix_eq a m" using a(2) eq by (simp add: Matrix_eq_def)
    then show ?thesis using i t(1) by (intro exI[of _ i]) auto
  qed
qed

subsection \<open>The loop of the breadth-first search\<close>

lemma bfs_loop_skip:
  assumes "\<forall>x\<in>set xs. consistent x \<and> \<not> Matrix_eq x final"
  shows "bfs_loop final (xs @ ys) = bfs_loop final (ys @ concat (map expand xs))"
  using assms
proof (induction xs arbitrary: ys)
  case Nil
  then show ?case by simp
next
  case (Cons x xs)
  from Cons.prems have x: "consistent x" "\<not> Matrix_eq x final" by simp_all
  from play_total[OF x(1)] obtain cs where cs: "play x None = Inr cs" by blast
  have "bfs_loop final ((x # xs) @ ys) = bfs_loop final ((xs @ ys) @ expand x)"
    using x(2) cs expand_eq[OF x(1) cs] by (subst bfs_loop.simps) simp
  also have "\<dots> = bfs_loop final (xs @ (ys @ expand x))" by simp
  also have "\<dots> = bfs_loop final ((ys @ expand x) @ concat (map expand xs))"
    using Cons.prems by (intro Cons.IH) simp
  finally show ?case by simp
qed

lemma bfs_loop_found:
  assumes "\<forall>x\<in>set xs. consistent x \<and> \<not> Matrix_eq x final" "Matrix_eq t final"
  shows "bfs_loop final (xs @ t # ys) =
     Some (ebind (steps_to_root t) (\<lambda>steps. Inr (Some (rev steps))))"
proof -
  have "bfs_loop final (xs @ t # ys) = bfs_loop final ((t # ys) @ concat (map expand xs))"
    by (rule bfs_loop_skip[OF assms(1)])
  also have "\<dots> = Some (ebind (steps_to_root t) (\<lambda>steps. Inr (Some (rev steps))))"
    using assms(2) by (subst bfs_loop.simps) simp
  finally show ?thesis .
qed

lemma bfs_loop_levels:
  assumes "consistent r" "\<forall>k<d. \<forall>x\<in>set (level r k). \<not> Matrix_eq x final"
  shows "bfs_loop final [r] = bfs_loop final (level r d)"
  using assms(2)
proof (induction d)
  case 0
  then show ?case by simp
next
  case (Suc d)
  have "\<forall>k<d. \<forall>x\<in>set (level r k). \<not> Matrix_eq x final" using Suc.prems less_SucI by blast
  then have "bfs_loop final [r] = bfs_loop final (level r d)" by (rule Suc.IH)
  also have "\<dots> = bfs_loop final (level r d @ [])" by simp
  also have "\<dots> = bfs_loop final ([] @ concat (map expand (level r d)))"
    using Suc.prems level_consistent[OF assms(1)] by (intro bfs_loop_skip) auto
  finally show ?case by simp
qed


text \<open>
  Claim C1.  When some sequence of legal moves leads from \<open>initial\<close> to a state equal to
  \<open>final\<close>, the breadth-first search returns a step list; it is the path reconstruction of
  a node equal to \<open>final\<close> that a sequence of legal moves of the same length reaches, and no
  sequence of legal moves from \<open>initial\<close> to \<open>final\<close> is shorter.
\<close>

theorem bfs_returns_shortest_path:
  assumes "consistent initial" "replay (clone initial) path = Some goal" "Matrix_eq goal final"
  shows "\<exists>steps ds n.
     BreadthFirstSearch_solve initial final = Some (Inr (Some steps)) \<and>
     replay (clone initial) ds = Some n \<and> Matrix_eq n final \<and>
     steps_to_root n = Inr (rev steps) \<and> length steps = length ds \<and>
     (\<forall>ds' m. replay (clone initial) ds' = Some m \<and> Matrix_eq m final \<longrightarrow> length ds \<le> length ds')"
proof -
  let ?r = "clone initial" and ?f = "clone final"
  have cr: "consistent ?r" using assms(1) by (rule clone_consistent)
  have pr: "parent ?r = None" by (simp add: clone_def)
  have eqf: "\<And>x. Matrix_eq x ?f = Matrix_eq x final" by (simp add: Matrix_eq_def clone_def)
  let ?hit = "\<lambda>k. \<exists>t\<in>set (level ?r k). Matrix_eq t final"
  from level_complete[OF cr pr assms(2)] assms(3) have ex: "\<exists>k. ?hit k"
    by (auto simp: Matrix_eq_def)
  define d where "d = (LEAST k. ?hit k)"
  have hd: "?hit d" unfolding d_def using ex by (rule LeastI_ex)
  have before: "\<forall>k<d. \<forall>x\<in>set (level ?r k). \<not> Matrix_eq x ?f"
    unfolding eqf d_def using not_less_Least by blast
  have "\<exists>x\<in>set (level ?r d). Matrix_eq x ?f" using hd by (simp add: eqf)
  from split_list_first_prop[OF this] obtain xs t ys where
    sp: "level ?r d = xs @ t # ys" "Matrix_eq t ?f" "\<forall>x\<in>set xs. \<not> Matrix_eq x ?f"
    by blast
  have cx: "\<forall>x\<in>set xs. consistent x \<and> \<not> Matrix_eq x ?f"
    using sp(1,3) level_consistent[OF cr, of _ d] by auto
  have t: "t \<in> set (level ?r d)" using sp(1) by simp
  from level_nodes[OF cr t] obtain ds where ds: "length ds = d" "replay ?r ds = Some t" by blast
  from steps_to_root_replay[OF cr pr ds(2)] obtain st where
    st: "steps_to_root t = Inr st" "length st = length ds" by blast
  have "BreadthFirstSearch_solve initial final = bfs_loop ?f (level ?r d)"
    unfolding BreadthFirstSearch_solve_def by (rule bfs_loop_levels[OF cr before])
  also have "\<dots> = Some (ebind (steps_to_root t) (\<lambda>steps. Inr (Some (rev steps))))"
    unfolding sp(1) by (rule bfs_loop_found[OF cx sp(2)])
  finally have res: "BreadthFirstSearch_solve initial final = Some (Inr (Some (rev st)))"
    using st(1) by simp
  have min: "length ds \<le> length ds'" if "replay ?r ds' = Some m" "Matrix_eq m final" for ds' m
  proof -
    from level_complete[OF cr pr that(1)] that(2) obtain j where
      j: "j \<le> length ds'" "?hit j" by (auto simp: Matrix_eq_def)
    have "d \<le> j" unfolding d_def using j(2) by (rule Least_le)
    then show ?thesis using j(1) ds(1) by simp
  qed
  show ?thesis
    using res ds(2) sp(2) st min by (intro exI[of _ "rev st"] exI[of _ ds] exI[of _ t]) (auto simp: eqf)
qed


lemma example_path:
  "replay (clone example_initial) [RIGHT] =
     Some (Matrix [[1, 2, 3], [4, 5, - 1], [6, 7, 8]] (Some (1, 2)) (Some (clone example_initial))
             (Some RIGHT))"
  by code_simp

theorem bfs_returns_shortest_path_witness:
  "consistent example_initial \<and>
   replay (clone example_initial) [RIGHT] =
     Some (Matrix [[1, 2, 3], [4, 5, - 1], [6, 7, 8]] (Some (1, 2)) (Some (clone example_initial))
             (Some RIGHT)) \<and>
   Matrix_eq (Matrix [[1, 2, 3], [4, 5, - 1], [6, 7, 8]] (Some (1, 2)) (Some (clone example_initial))
                (Some RIGHT)) example_final \<and>
   (\<exists>steps ds n.
      BreadthFirstSearch_solve example_initial example_final = Some (Inr (Some steps)) \<and>
      replay (clone example_initial) ds = Some n \<and> Matrix_eq n example_final \<and>
      steps_to_root n = Inr (rev steps) \<and> length steps = length ds \<and> length ds \<le> 1)"
proof -
  have eq: "Matrix_eq (Matrix [[1, 2, 3], [4, 5, - 1], [6, 7, 8]] (Some (1, 2))
      (Some (clone example_initial)) (Some RIGHT)) example_final"
    by (simp add: Matrix_eq_def example_final_def)
  from bfs_returns_shortest_path [OF example_initial_consistent example_path eq]
  obtain steps where "\<exists>ds n.
     BreadthFirstSearch_solve example_initial example_final = Some (Inr (Some steps)) \<and>
     replay (clone example_initial) ds = Some n \<and> Matrix_eq n example_final \<and>
     steps_to_root n = Inr (rev steps) \<and> length steps = length ds \<and>
     (\<forall>ds' m. replay (clone example_initial) ds' = Some m \<and> Matrix_eq m example_final \<longrightarrow>
        length ds \<le> length ds')" ..
  then obtain ds where "\<exists>n.
     BreadthFirstSearch_solve example_initial example_final = Some (Inr (Some steps)) \<and>
     replay (clone example_initial) ds = Some n \<and> Matrix_eq n example_final \<and>
     steps_to_root n = Inr (rev steps) \<and> length steps = length ds \<and>
     (\<forall>ds' m. replay (clone example_initial) ds' = Some m \<and> Matrix_eq m example_final \<longrightarrow>
        length ds \<le> length ds')" ..
  then obtain n where
    s: "BreadthFirstSearch_solve example_initial example_final = Some (Inr (Some steps))"
      "replay (clone example_initial) ds = Some n" "Matrix_eq n example_final"
      "steps_to_root n = Inr (rev steps)" "length steps = length ds"
    and m: "\<forall>ds' m. replay (clone example_initial) ds' = Some m \<and> Matrix_eq m example_final \<longrightarrow>
        length ds \<le> length ds'"
    by auto
  from m example_path eq have "length ds \<le> length [RIGHT]" by blast
  then have "length ds \<le> 1" by simp
  with s have "\<exists>steps ds n.
      BreadthFirstSearch_solve example_initial example_final = Some (Inr (Some steps)) \<and>
      replay (clone example_initial) ds = Some n \<and> Matrix_eq n example_final \<and>
      steps_to_root n = Inr (rev steps) \<and> length steps = length ds \<and> length ds \<le> 1"
    by blast
  then show ?thesis using example_initial_consistent example_path eq by blast
qed

text \<open>The example of the specification: the search returns the one step that clicks 5.\<close>

lemma bfs_example:
  "BreadthFirstSearch_solve example_initial example_final =
     Some (Inr (Some [\<lparr>click = Some 5, target = example_final\<rparr>]))"
  by code_simp

subsection \<open>The depth-first search\<close>





text \<open>
  The depth-first search never compares its root with the goal, which the breadth-first
  search does: on equal states the former finds nothing, the latter the empty step list.
\<close>

lemma searches_on_equal_states:
  "DepthFirstSearch_solve 0 example_top example_top = Inr None \<and>
   DepthFirstSearch_solve 3 example_top example_top = Inr None \<and>
   BreadthFirstSearch_solve example_top example_top = Some (Inr (Some []))"
  by code_simp




end
